theory Spec2Isabelle
  imports Main
begin

section \<open>The SQL cluster coordinator (modules/sql/src/cluster.ts)\<close>

text \<open>
  A shallow embedding of \<^verbatim>\<open>SQLCluster\<close>. JavaScript numbers that count things (array
  lengths, the context token, loop counters) are natural numbers here: every value the
  code computes with them stays far below \<open>2^53\<close>, where doubles are exact. Worker ids
  and ports come from the caller's options and can be large: they are integers, and
  adding to them rounds as the addition of doubles does. Arrays are lists; an array
  mutated in place is passed in and returned.
\<close>

subsection \<open>Arrays\<close>

text \<open>
  \<^verbatim>\<open>xs.splice(start, deleteCount)\<close> for \<open>0 \<le> start\<close>: the removed elements (the value of
  the call) and the array that is left (the array is changed in place).
\<close>

definition splice :: "nat \<Rightarrow> nat \<Rightarrow> 'a list \<Rightarrow> 'a list \<times> 'a list" where
  "splice start deleteCount xs =
     (take deleteCount (drop start xs), take start xs @ drop (start + deleteCount) xs)"

text \<open>
  \<^verbatim>\<open>Math.ceil(m / i)\<close> for an array length \<open>m\<close> and a loop counter \<open>i \<ge> 1\<close> (the only
  divisors the loop uses). The double quotient of two such integers is never rounded
  across an integer, so the result is the exact ceiling.
\<close>

definition ceil_div :: "nat \<Rightarrow> nat \<Rightarrow> nat" where
  "ceil_div m i = (if m mod i = 0 then m div i else m div i + 1)"

subsection \<open>The partitioning loop of \<^verbatim>\<open>_createFileTable\<close>\<close>

text \<open>
  \<^verbatim>\<open>for (let i = this._workers.length; i > 0; i--) {
    chunkedPaths.push(filePath.splice(0, Math.ceil(filePath.length / i)));
  }\<close>
  The state of the loop is the counter \<open>i\<close>, the array \<open>filePath\<close> (the caller's array,
  spliced in place) and \<open>chunkedPaths\<close>.
\<close>

fun chunk_loop :: "nat \<Rightarrow> 'a list \<Rightarrow> 'a list list \<Rightarrow> 'a list \<times> 'a list list" where
  "chunk_loop 0 filePath chunkedPaths = (filePath, chunkedPaths)"
| "chunk_loop (Suc n) filePath chunkedPaths =
     (case splice 0 (ceil_div (length filePath) (Suc n)) filePath of
        (removed, remaining) \<Rightarrow> chunk_loop n remaining (chunkedPaths @ [removed]))"

definition chunkPaths :: "nat \<Rightarrow> 'a list \<Rightarrow> 'a list \<times> 'a list list" where
  "chunkPaths numWorkers filePath = chunk_loop numWorkers filePath []"

subsection \<open>Strings\<close>

text \<open>
  \<^verbatim>\<open>s.startsWith(t)\<close> and \<^verbatim>\<open>s.includes(t)\<close>. The sentinel searched for is ASCII, so
  matching bytes and matching UTF-16 code units agree.
\<close>

fun startsWith :: "string \<Rightarrow> string \<Rightarrow> bool" where
  "startsWith s [] = True"
| "startsWith [] (c # t) = False"
| "startsWith (d # s) (c # t) = (d = c \<and> startsWith s t)"

fun js_includes :: "string \<Rightarrow> string \<Rightarrow> bool" where
  "js_includes [] t = (t = [])"
| "js_includes (d # s) t = (startsWith (d # s) t \<or> js_includes s t)"

text \<open>The decimal digits of a number, as a template literal \<^verbatim>\<open>`${n}`\<close> prints them.\<close>

definition digit_char :: "nat \<Rightarrow> char" where
  "digit_char d = ''0123456789'' ! d"

fun show_nat :: "nat \<Rightarrow> string" where
  "show_nat n = (if n < 10 then [digit_char n] else show_nat (n div 10) @ [digit_char (n mod 10)])"

subsection \<open>Objects with computed keys\<close>

text \<open>
  A JavaScript object with string keys, as the list of its own properties in the order
  \<^verbatim>\<open>Object.entries\<close> lists them: first the keys that are array indices (the canonical
  decimal form of an integer below \<open>2^32 - 1\<close>) in ascending numeric order, then every
  other key in the order it was first added.
\<close>

type_synonym 'v js_object = "(string \<times> 'v) list"

definition is_digit :: "char \<Rightarrow> bool" where
  "is_digit c = (48 \<le> (of_char c :: nat) \<and> (of_char c :: nat) \<le> 57)"

definition digits_value :: "string \<Rightarrow> nat" where
  "digits_value s = foldl (\<lambda>n c. 10 * n + ((of_char c :: nat) - 48)) 0 s"

definition array_index :: "string \<Rightarrow> nat option" where
  "array_index s =
     (if s \<noteq> [] \<and> list_all is_digit s \<and> (length s = 1 \<or> hd s \<noteq> CHR ''0'')
         \<and> digits_value s < 2 ^ 32 - 1
      then Some (digits_value s) else None)"

text \<open>Adding a new key that is the array index \<open>n\<close>: it goes before the first key that
  is a larger index or no index at all.\<close>

fun insert_index :: "nat \<Rightarrow> string \<Rightarrow> 'v \<Rightarrow> 'v js_object \<Rightarrow> 'v js_object" where
  "insert_index n k v [] = [(k, v)]"
| "insert_index n k v ((k', v') # obj) =
     (case array_index k' of
        Some m \<Rightarrow> if m < n then (k', v') # insert_index n k v obj else (k, v) # (k', v') # obj
      | None \<Rightarrow> (k, v) # (k', v') # obj)"

text \<open>\<^verbatim>\<open>{...xs, [name]: v}\<close>: an existing key keeps its place and gets the new value.\<close>

definition js_set :: "string \<Rightarrow> 'v \<Rightarrow> 'v js_object \<Rightarrow> 'v js_object" where
  "js_set k v obj =
     (if k \<in> set (map fst obj) then map (\<lambda>(k', v'). if k' = k then (k', v) else (k', v')) obj
      else case array_index k of
        None \<Rightarrow> obj @ [(k, v)]
      | Some n \<Rightarrow> insert_index n k v obj)"

text \<open>\<^verbatim>\<open>xs[i]\<close> read from an array: \<^verbatim>\<open>undefined\<close> (\<open>None\<close>) at and beyond its length.\<close>

definition nth_opt :: "'a list \<Rightarrow> nat \<Rightarrow> 'a option" where
  "nth_opt xs i = (if i < length xs then Some (xs ! i) else None)"

subsection \<open>DataFrames\<close>

text \<open>
  A Series is its cuDF type and its rows; a DataFrame holds its columns by name, in
  the order of the keys of the object its accessor was built from. \<^verbatim>\<open>names\<close>,
  \<^verbatim>\<open>types\<close> and \<^verbatim>\<open>numRows\<close> are its getters; \<^verbatim>\<open>types\<close> is a map from column name to
  type.
\<close>

record ('t, 'v) Series =
  series_type :: 't
  series_data :: "'v list"

datatype ('t, 'v) DataFrame = DataFrame "('t, 'v) Series js_object"

fun names :: "('t, 'v) DataFrame \<Rightarrow> string list" where
  "names (DataFrame cols) = map fst cols"

fun types :: "('t, 'v) DataFrame \<Rightarrow> (string \<rightharpoonup> 't)" where
  "types (DataFrame cols) = map_option series_type \<circ> map_of cols"

fun numRows :: "('t, 'v) DataFrame \<Rightarrow> nat" where
  "numRows (DataFrame cols) = (case cols of [] \<Rightarrow> 0 | c # _ \<Rightarrow> length (series_data (snd c)))"

text \<open>
  \<^verbatim>\<open>columns[name] = col\<close> on an ordinary object. The name \<^verbatim>\<open>__proto__\<close> is the accessor
  inherited from \<^verbatim>\<open>Object.prototype\<close>: assigning to it sets the prototype of the object
  and adds no property of its own.
\<close>

definition assign :: "string \<Rightarrow> 'v \<Rightarrow> 'v js_object \<Rightarrow> 'v js_object" where
  "assign k v obj = (if k = ''__proto__'' then obj else js_set k v obj)"

text \<open>
  \<^verbatim>\<open>function _seriesToColumns(data) {
    const columns = {};
    for (const [name, col] of Object.entries(data)) { columns[name] = col._col; }
    return columns;
  }\<close>
  for an object \<open>data\<close> of Series, and \<^verbatim>\<open>new DataFrame(data)\<close>, which builds its accessor
  from that object.
\<close>

definition seriesToColumns :: "('t, 'v) Series js_object \<Rightarrow> ('t, 'v) Series js_object" where
  "seriesToColumns data = foldl (\<lambda>columns (name, col). assign name col columns) [] data"

definition DataFrame_new :: "('t, 'v) Series js_object \<Rightarrow> ('t, 'v) DataFrame" where
  "DataFrame_new data = DataFrame (seriesToColumns data)"

text \<open>
  \<^verbatim>\<open>ParsedSchema\<close>, what \<^verbatim>\<open>parseSchema(input, fileType)\<close> returns: the column names and
  their Arrow types. \<^verbatim>\<open>parseSchema\<close> and \<^verbatim>\<open>arrowToCUDFType\<close> are native or imported
  code; the model takes them as parameters. \<^verbatim>\<open>arrowToCUDFType\<close> is applied to
  \<^verbatim>\<open>types[i]\<close>, which is \<^verbatim>\<open>undefined\<close> when \<^verbatim>\<open>types\<close> is shorter than \<^verbatim>\<open>names\<close>.
\<close>

record 'a ParsedSchema =
  schema_names :: "string list"
  schema_types :: "'a list"

text \<open>
  \<^verbatim>\<open>new DataFrame(names.reduce((xs, name, i) => ({...xs,
      [name]: Series.new({type: arrowToCUDFType(types[i]), data: []})}), {}))\<close>
  A computed key of an object literal always makes a property of the object's own,
  also for the name \<^verbatim>\<open>__proto__\<close>, and the spread copies it as one.
\<close>

definition empty_frame :: "('a option \<Rightarrow> 't) \<Rightarrow> 'a ParsedSchema \<Rightarrow> ('t, 'v) DataFrame" where
  "empty_frame arrowToCUDFType schema =
     DataFrame_new (foldl (\<lambda>xs (i, name).
         js_set name \<lparr>series_type = arrowToCUDFType (nth_opt (schema_types schema) i),
                      series_data = []\<rparr> xs)
       [] (enumerate 0 (schema_names schema)))"

subsection \<open>Numbers\<close>

text \<open>
  \<^verbatim>\<open>x + y\<close> on numbers whose values are integers: the exact sum, rounded to the nearest
  double, a tie going to the double with the even significand. Every integer up to
  \<open>2^53\<close> in absolute value is a double; a larger one has more than 53 bits, and the
  doubles around it are the multiples of \<open>2^(bits - 53)\<close>. (A finite double plus an array
  index stays finite.)
\<close>

function bit_length :: "int \<Rightarrow> nat" where
  "bit_length n = (if n \<le> 0 then 0 else Suc (bit_length (n div 2)))"
  by pat_completeness auto
termination bit_length
  by (relation "measure nat") auto

declare bit_length.simps [simp del]

definition to_double :: "int \<Rightarrow> int" where
  "to_double x =
     (if \<bar>x\<bar> \<le> 2 ^ 53 then x
      else (let ulp = 2 ^ (bit_length \<bar>x\<bar> - 53);
                q = \<bar>x\<bar> div ulp;
                r = \<bar>x\<bar> mod ulp
            in sgn x * (if 2 * r > ulp \<or> (2 * r = ulp \<and> odd q) then q + 1 else q) * ulp))"

definition js_add :: "int \<Rightarrow> int \<Rightarrow> int" where
  "js_add x y = to_double (x + y)"

subsection \<open>Workers, the cluster and what the coordinator does to them\<close>

text \<open>
  The two classes behind the \<^verbatim>\<open>Worker\<close> interface: \<^verbatim>\<open>new LocalSQLWorker(id)\<close> and
  \<^verbatim>\<open>new RemoteSQLWorker(this, id + i, {...process.env, CUDA_VISIBLE_DEVICES: i})\<close> (its
  id and its device).
\<close>

datatype Worker = LocalSQLWorker int | RemoteSQLWorker int nat

fun worker_id :: "Worker \<Rightarrow> int" where
  "worker_id (LocalSQLWorker i) = i"
| "worker_id (RemoteSQLWorker i d) = i"

text \<open>The fields \<^verbatim>\<open>_worker\<close> and \<^verbatim>\<open>_workers\<close> of an \<^verbatim>\<open>SQLCluster\<close>.\<close>

record SQLCluster =
  cluster_worker :: Worker
  cluster_workers :: "Worker list"

datatype file_type = CSV | ORC | Parquet

text \<open>
  Every call the coordinator makes on a worker handle or on the channel of its
  context (\<^verbatim>\<open>this.context.context.broadcast\<close>, \<^verbatim>\<open>.send\<close>), with its arguments. A worker
  call starts with the id of the worker it is made on. \<^verbatim>\<open>createDataFrameTable\<close> gets
  \<^verbatim>\<open>ids[i]\<close> as its table id, which is \<^verbatim>\<open>undefined\<close> when the channel returned too few.
\<close>

datatype 'df call =
    WorkerKill int
  | WorkerCreateContext int "(int \<times> int) list"
  | WorkerDropTable int string
  | WorkerSql int string nat
  | WorkerCreateDataFrameTable int string "string option"
  | WorkerCreateCSVTable int string "string list"
  | WorkerCreateParquetTable int string "string list"
  | WorkerCreateORCTable int string "string list"
  | ContextBroadcast nat 'df
  | ContextSend int nat string 'df

text \<open>
  What is shared by all operations: the module-level counter \<^verbatim>\<open>ctxToken\<close>
  (\<^verbatim>\<open>let ctxToken = 0\<close>) and the calls made so far, oldest first.
\<close>

record 'df world =
  ctxToken :: nat
  calls :: "'df call list"

definition world0 :: "'df world" where
  "world0 = \<lparr>ctxToken = 0, calls = []\<rparr>"

definition emit :: "'df call list \<Rightarrow> 'df world \<Rightarrow> 'df world" where
  "emit cs w = w\<lparr>calls := calls w @ cs\<rparr>"

subsection \<open>Promises\<close>

text \<open>
  A worker call returns a promise. What becomes of it is the worker's business: it is
  fulfilled with a value or rejected with a reason at some instant, or it stays pending
  for ever. Instants are natural numbers. A promise whose instant is not after the
  present is one found already settled.
\<close>

datatype error = Error string

datatype 'a promise = Fulfills nat 'a | Rejects nat error | Never

text \<open>The instant at which a promise settles, if it does.\<close>

fun settles :: "'a promise \<Rightarrow> nat option" where
  "settles (Fulfills t v) = Some t"
| "settles (Rejects t e) = Some t"
| "settles Never = None"

text \<open>What \<^verbatim>\<open>await\<close> gives: a value or a thrown error, and the instant at which the
  coordinator goes on; or no return at all.\<close>

datatype 'a awaited = Returned nat 'a | Thrown nat error | Blocked

text \<open>The first entry with the least instant: reactions run in the order in which
  their promises settle, and those of promises already settled in array order.\<close>

fun earliest :: "(nat \<times> 'b) list \<Rightarrow> (nat \<times> 'b) option" where
  "earliest [] = None"
| "earliest (x # xs) =
     (case earliest xs of
        None \<Rightarrow> Some x
      | Some y \<Rightarrow> if fst x \<le> fst y then Some x else Some y)"

fun rejections :: "nat \<Rightarrow> 'a promise list \<Rightarrow> (nat \<times> error) list" where
  "rejections now [] = []"
| "rejections now (Rejects t e # ps) = (max now t, e) # rejections now ps"
| "rejections now (p # ps) = rejections now ps"

fun fulfilments :: "nat \<Rightarrow> 'a promise list \<Rightarrow> (nat \<times> 'a) list" where
  "fulfilments now [] = []"
| "fulfilments now (Fulfills t v # ps) = (max now t, v) # fulfilments now ps"
| "fulfilments now (p # ps) = fulfilments now ps"

text \<open>
  \<^verbatim>\<open>await Promise.all(ps)\<close> at the instant \<open>now\<close>: it throws as soon as one promise is
  rejected, with that reason; otherwise it returns all values once the last promise is
  fulfilled, and never if one stays pending.
\<close>

definition promise_all :: "nat \<Rightarrow> 'a promise list \<Rightarrow> 'a list awaited" where
  "promise_all now ps =
     (case earliest (rejections now ps) of
        Some (t, e) \<Rightarrow> Thrown t e
      | None \<Rightarrow>
          if Never \<in> set ps then Blocked
          else Returned (foldl max now (map fst (fulfilments now ps)))
                 (map snd (fulfilments now ps)))"

text \<open>
  What an awaited fan-out amounts to, as a property of its result: it returns only when
  every promise is fulfilled, and no earlier than the last of them; it throws the reason
  of a rejection at the instant of the first rejection, whatever the other promises
  do; it never returns when a promise stays pending and none is rejected.
\<close>

definition awaited_all :: "nat \<Rightarrow> 'a promise list \<Rightarrow> 'a list awaited \<Rightarrow> bool" where
  "awaited_all now ps r =
     (case r of
        Returned t vs \<Rightarrow> list_all (\<lambda>p. \<exists>t' v. p = Fulfills t' v \<and> t' \<le> t) ps
      | Thrown t e \<Rightarrow>
          (\<exists>t'. Rejects t' e \<in> set ps \<and> t = max now t')
          \<and> list_all (\<lambda>p. \<forall>t'' e''. p = Rejects t'' e'' \<longrightarrow> t \<le> max now t'') ps
      | Blocked \<Rightarrow> Never \<in> set ps \<and> list_all (\<lambda>p. \<forall>t e. p \<noteq> Rejects t e) ps)"

text \<open>
  \<^verbatim>\<open>await Promise.race(promises.map((dfs, idx) => dfs.then((dfs) => ({dfs, idx}))))\<close> at
  the instant \<open>now\<close>: the first promise to settle decides; among promises found already
  settled, the one with the least index. A rejection passes through \<^verbatim>\<open>then\<close>.
\<close>

fun settlements :: "nat \<Rightarrow> nat \<Rightarrow> 'a promise list \<Rightarrow> (nat \<times> nat \<times> (error + 'a)) list" where
  "settlements now idx [] = []"
| "settlements now idx (Fulfills t v # ps) = (max now t, idx, Inr v) # settlements now (Suc idx) ps"
| "settlements now idx (Rejects t e # ps) = (max now t, idx, Inl e) # settlements now (Suc idx) ps"
| "settlements now idx (Never # ps) = settlements now (Suc idx) ps"

definition promise_race :: "nat \<Rightarrow> 'a promise list \<Rightarrow> ('a \<times> nat) awaited" where
  "promise_race now ps =
     (case earliest (settlements now 0 ps) of
        None \<Rightarrow> Blocked
      | Some (t, idx, Inl e) \<Rightarrow> Thrown t e
      | Some (t, idx, Inr dfs) \<Rightarrow> Returned t (dfs, idx))"

subsection \<open>Creating the cluster\<close>

text \<open>
  The constructor:
  \<^verbatim>\<open>this._worker = new LocalSQLWorker(id);
  this._workers = Array.from({length: numWorkers}, (_, i) =>
      i === 0 ? this._worker : new RemoteSQLWorker(this, id + i, {...})).reverse();\<close>
  \<^verbatim>\<open>Array.from\<close> makes no element for a length below one. (The two \<^verbatim>\<open>process.on\<close>
  handlers that call \<^verbatim>\<open>kill\<close> at exit are not part of the model.)
\<close>

definition SQLCluster_new :: "int \<Rightarrow> int \<Rightarrow> SQLCluster" where
  "SQLCluster_new wid numWorkers =
     \<lparr>cluster_worker = LocalSQLWorker wid,
      cluster_workers =
        rev (map (\<lambda>i. if i = 0 then LocalSQLWorker wid
                      else RemoteSQLWorker (js_add wid (int i)) i)
                 [0..<nat numWorkers])\<rparr>"




subsection \<open>Tables\<close>

text \<open>
  \<^verbatim>\<open>createDataFrameTable\<close>: the counter is advanced by the number of workers, the
  frame is broadcast under the old value of the counter, and every worker is told to
  register the table under the reference the channel returned for it.
\<close>

definition createDataFrameTable ::
  "(nat \<Rightarrow> 'df \<Rightarrow> string list) \<Rightarrow> ('df call \<Rightarrow> unit promise) \<Rightarrow> SQLCluster \<Rightarrow> string \<Rightarrow> 'df
     \<Rightarrow> nat \<Rightarrow> 'df world \<Rightarrow> unit list awaited \<times> 'df world" where
  "createDataFrameTable broadcast respond cluster tableName input now w =
     (let n = length (cluster_workers cluster);
          w1 = w\<lparr>ctxToken := ctxToken w + n\<rparr>;
          ids = rev (broadcast (ctxToken w1 - n) input);
          w2 = emit [ContextBroadcast (ctxToken w1 - n) input] w1;
          cs = map (\<lambda>(i, worker).
                      WorkerCreateDataFrameTable (worker_id worker) tableName (nth_opt ids i))
                 (enumerate 0 (cluster_workers cluster))
      in (promise_all now (map respond cs), emit cs w2))"

text \<open>The name under which an empty table is sent:
  \<^verbatim>\<open>`broadcast_table_message_${ctxToken}`\<close>.\<close>

definition message_id :: "nat \<Rightarrow> string" where
  "message_id token = ''broadcast_table_message_'' @ show_nat token"

text \<open>
  The callback of \<^verbatim>\<open>this._workers.slice().reverse().map((worker, i) => ...)\<close> in
  \<^verbatim>\<open>_createFileTable\<close>, run over the workers paired with their chunks
  (\<^verbatim>\<open>chunkedPaths[i]\<close>; there are as many chunks as workers). It returns the worker
  calls whose promises are awaited, in order.
\<close>

fun dispatch ::
  "(Worker \<Rightarrow> string list \<Rightarrow> 'df call) \<Rightarrow> string \<Rightarrow> 'df \<Rightarrow> (Worker \<times> string list) list
     \<Rightarrow> 'df world \<Rightarrow> 'df call list \<times> 'df world" where
  "dispatch cb tableName emptyDF [] w = ([], w)"
| "dispatch cb tableName emptyDF ((worker, chunk) # rest) w =
     (if length chunk > 0 then
        (let c = cb worker chunk in
         case dispatch cb tableName emptyDF rest (emit [c] w) of
           (cs, w') \<Rightarrow> (c # cs, w'))
      else
        (let w1 = w\<lparr>ctxToken := ctxToken w + 1\<rparr>;
             message = message_id (ctxToken w1);
             c = WorkerCreateDataFrameTable (worker_id worker) tableName (Some message)
         in case dispatch cb tableName emptyDF rest
                   (emit [ContextSend (worker_id worker) (ctxToken w1) message emptyDF, c] w1) of
              (cs, w') \<Rightarrow> (c # cs, w')))"

text \<open>
  \<^verbatim>\<open>_createFileTable\<close>. Its result is what the \<^verbatim>\<open>await\<close> gives, the caller's array
  \<^verbatim>\<open>filePath\<close> as the call leaves it, and the world.
\<close>

definition createFileTable ::
  "(string list \<Rightarrow> file_type \<Rightarrow> 'a ParsedSchema) \<Rightarrow> ('a option \<Rightarrow> 't)
     \<Rightarrow> (('t, 'v) DataFrame call \<Rightarrow> unit promise) \<Rightarrow> SQLCluster \<Rightarrow> string \<Rightarrow> string list
     \<Rightarrow> file_type \<Rightarrow> (Worker \<Rightarrow> string list \<Rightarrow> ('t, 'v) DataFrame call)
     \<Rightarrow> nat \<Rightarrow> ('t, 'v) DataFrame world
     \<Rightarrow> unit list awaited \<times> string list \<times> ('t, 'v) DataFrame world" where
  "createFileTable parseSchema arrowToCUDFType respond cluster tableName filePath fileType cb now w =
     (let emptyDF = empty_frame arrowToCUDFType (parseSchema filePath fileType) in
      case chunkPaths (length (cluster_workers cluster)) filePath of
        (filePath', chunkedPaths) \<Rightarrow>
          (case dispatch cb tableName emptyDF (zip (rev (cluster_workers cluster)) chunkedPaths) w of
             (cs, w') \<Rightarrow> (promise_all now (map respond cs), filePath', w')))"

definition createCSVTable ::
  "(string list \<Rightarrow> file_type \<Rightarrow> 'a ParsedSchema) \<Rightarrow> ('a option \<Rightarrow> 't)
     \<Rightarrow> (('t, 'v) DataFrame call \<Rightarrow> unit promise) \<Rightarrow> SQLCluster \<Rightarrow> string \<Rightarrow> string list
     \<Rightarrow> nat \<Rightarrow> ('t, 'v) DataFrame world
     \<Rightarrow> unit list awaited \<times> string list \<times> ('t, 'v) DataFrame world" where
  "createCSVTable parseSchema arrowToCUDFType respond cluster tableName filePaths now w =
     createFileTable parseSchema arrowToCUDFType respond cluster tableName filePaths CSV
       (\<lambda>worker chunkedPaths. WorkerCreateCSVTable (worker_id worker) tableName chunkedPaths) now w"

definition createParquetTable ::
  "(string list \<Rightarrow> file_type \<Rightarrow> 'a ParsedSchema) \<Rightarrow> ('a option \<Rightarrow> 't)
     \<Rightarrow> (('t, 'v) DataFrame call \<Rightarrow> unit promise) \<Rightarrow> SQLCluster \<Rightarrow> string \<Rightarrow> string list
     \<Rightarrow> nat \<Rightarrow> ('t, 'v) DataFrame world
     \<Rightarrow> unit list awaited \<times> string list \<times> ('t, 'v) DataFrame world" where
  "createParquetTable parseSchema arrowToCUDFType respond cluster tableName filePaths now w =
     createFileTable parseSchema arrowToCUDFType respond cluster tableName filePaths Parquet
       (\<lambda>worker chunkedPaths. WorkerCreateParquetTable (worker_id worker) tableName chunkedPaths) now w"

definition createORCTable ::
  "(string list \<Rightarrow> file_type \<Rightarrow> 'a ParsedSchema) \<Rightarrow> ('a option \<Rightarrow> 't)
     \<Rightarrow> (('t, 'v) DataFrame call \<Rightarrow> unit promise) \<Rightarrow> SQLCluster \<Rightarrow> string \<Rightarrow> string list
     \<Rightarrow> nat \<Rightarrow> ('t, 'v) DataFrame world
     \<Rightarrow> unit list awaited \<times> string list \<times> ('t, 'v) DataFrame world" where
  "createORCTable parseSchema arrowToCUDFType respond cluster tableName filePaths now w =
     createFileTable parseSchema arrowToCUDFType respond cluster tableName filePaths ORC
       (\<lambda>worker chunkedPaths. WorkerCreateORCTable (worker_id worker) tableName chunkedPaths) now w"

definition dropTable ::
  "('df call \<Rightarrow> unit promise) \<Rightarrow> SQLCluster \<Rightarrow> string \<Rightarrow> nat \<Rightarrow> 'df world
     \<Rightarrow> unit list awaited \<times> 'df world" where
  "dropTable respond cluster tableName now w =
     (let cs = map (\<lambda>worker. WorkerDropTable (worker_id worker) tableName)
                 (cluster_workers cluster)
      in (promise_all now (map respond cs), emit cs w))"

subsection \<open>Queries\<close>

text \<open>
  The generator \<^verbatim>\<open>sql\<close> run by a caller that takes every batch
  (\<^verbatim>\<open>for await (const df of cluster.sql(query))\<close>). The generator stands still at each
  \<^verbatim>\<open>yield\<close> until the caller asks for the next batch: \<open>consumer k\<close> is how long the
  caller keeps batch number \<open>k\<close>. \<^verbatim>\<open>yield* dfs\<close> gives the instant and the number of
  batches after the last of \<open>dfs\<close> is taken.
\<close>

fun yield_all :: "(nat \<Rightarrow> nat) \<Rightarrow> nat \<Rightarrow> nat \<Rightarrow> 'df list \<Rightarrow> nat \<times> nat" where
  "yield_all consumer now k [] = (now, k)"
| "yield_all consumer now k (df # dfs) = yield_all consumer (now + consumer k) (Suc k) dfs"

text \<open>How the generator ends: it returns, it throws, or it awaits for ever.\<close>

datatype gen_end = Done | Throws error | Awaiting

lemma earliest_mem: "earliest xs = Some x \<Longrightarrow> x \<in> set xs"
  by (induction xs arbitrary: x) (auto split: option.splits if_splits)

lemma settlements_idx:
  "(t, idx, r) \<in> set (settlements now i ps) \<Longrightarrow> i \<le> idx \<and> idx < i + length ps"
  by (induction now i ps rule: settlements.induct) auto

lemma promise_race_idx:
  "promise_race now ps = Returned t (dfs, idx) \<Longrightarrow> idx < length ps"
  unfolding promise_race_def
  by (auto split: option.splits prod.splits sum.splits dest!: earliest_mem settlements_idx)

text \<open>
  \<^verbatim>\<open>while (promises.length > 0) {
    const {dfs, idx} = await Promise.race(promises.map(...));
    promises.splice(idx, 1);
    yield* dfs;
  }\<close>
  The result is the batches yielded, in order, and how the generator ends.
\<close>

function drain ::
  "(nat \<Rightarrow> nat) \<Rightarrow> nat \<Rightarrow> nat \<Rightarrow> 'df list promise list \<Rightarrow> 'df list \<times> gen_end" where
  "drain consumer now k promises =
     (if length promises > 0 then
        (case promise_race now promises of
           Blocked \<Rightarrow> ([], Awaiting)
         | Thrown t e \<Rightarrow> ([], Throws e)
         | Returned t (dfs, idx) \<Rightarrow>
             (case yield_all consumer t k dfs of
                (now', k') \<Rightarrow>
                  (case drain consumer now' k' (snd (splice idx 1 promises)) of
                     (yielded, ending) \<Rightarrow> (dfs @ yielded, ending))))
      else ([], Done))"
  by pat_completeness auto
termination drain
  by (relation "measure (\<lambda>(consumer, now, k, promises). length promises)")
     (auto simp: splice_def dest: promise_race_idx)

declare drain.simps [simp del]

text \<open>
  \<^verbatim>\<open>sql\<close>: \<^verbatim>\<open>explain\<close> is the planner of the local context (it may throw); the
  query is sent to the workers under the value the counter had, which is then advanced
  by one.
\<close>

definition sql ::
  "(string \<Rightarrow> bool \<Rightarrow> error + string) \<Rightarrow> ('df call \<Rightarrow> 'df list promise) \<Rightarrow> (nat \<Rightarrow> nat)
     \<Rightarrow> SQLCluster \<Rightarrow> string \<Rightarrow> nat \<Rightarrow> 'df world \<Rightarrow> ('df list \<times> gen_end) \<times> 'df world" where
  "sql explain respond consumer cluster query now w =
     (case explain query False of
        Inl e \<Rightarrow> (([], Throws e), w)
      | Inr algebra \<Rightarrow>
          if js_includes algebra ''LogicalValues(tuples=[[]])'' then (([], Done), w)
          else
            (let token = ctxToken w;
                 w1 = w\<lparr>ctxToken := ctxToken w + 1\<rparr>;
                 cs = map (\<lambda>worker. WorkerSql (worker_id worker) query token)
                        (cluster_workers cluster)
             in (drain consumer now 0 (map respond cs), emit cs w1)))"

text \<open>
  For stating what the caller of \<^verbatim>\<open>sql\<close> sees. \<open>wins_race now ps i\<close>: of the promises
  \<open>ps\<close> raced at the instant \<open>now\<close>, the one at index \<open>i\<close> is the first to settle; no
  promise before it in the array settles as early (a promise found settled counts as
  settling at \<open>now\<close>) and none after it settles earlier.
\<close>

definition wins_race :: "nat \<Rightarrow> 'a promise list \<Rightarrow> nat \<Rightarrow> bool" where
  "wins_race now ps i =
     (i < length ps \<and>
      (case settles (ps ! i) of
         None \<Rightarrow> False
       | Some t \<Rightarrow>
           list_all (\<lambda>j. case settles (ps ! j) of
                           None \<Rightarrow> True
                         | Some t' \<Rightarrow>
                             if j < i then max now t < max now t' else max now t \<le> max now t')
             [0..<length ps]))"

text \<open>
  A query that fails after some batches: \<open>run\<close> lists, race by race, the index of the
  winner among the promises then pending and the batches it was fulfilled with, each
  race starting when the caller has taken the batches of the one before; the race
  after the last of them is won by a promise rejected with \<open>e\<close>.
\<close>

fun fails_after ::
  "(nat \<Rightarrow> nat) \<Rightarrow> nat \<Rightarrow> nat \<Rightarrow> 'df list promise list \<Rightarrow> (nat \<times> 'df list) list \<Rightarrow> error
     \<Rightarrow> bool" where
  "fails_after consumer now k ps [] e =
     list_ex (\<lambda>i. wins_race now ps i \<and> (case ps ! i of Rejects t e' \<Rightarrow> e' = e | _ \<Rightarrow> False))
       [0..<length ps]"
| "fails_after consumer now k ps ((i, dfs) # run) e =
     (wins_race now ps i \<and>
      (case ps ! i of
         Fulfills t dfs' \<Rightarrow>
           dfs' = dfs \<and>
           (case yield_all consumer (max now t) k dfs of
              (now', k') \<Rightarrow> fails_after consumer now' k' (take i ps @ drop (Suc i) ps) run e)
       | _ \<Rightarrow> False))"

subsection \<open>Shutting down\<close>

text \<open>
  \<^verbatim>\<open>this._workers.forEach((w) => { w.kill(); }); this._workers.length = 0;\<close>
\<close>

definition kill :: "SQLCluster \<Rightarrow> 'df world \<Rightarrow> SQLCluster \<times> 'df world" where
  "kill cluster w =
     (cluster\<lparr>cluster_workers := []\<rparr>,
      emit (map (\<lambda>worker. WorkerKill (worker_id worker)) (cluster_workers cluster)) w)"

section \<open>Properties\<close>

subsection \<open>The partition of the file paths\<close>

lemma ceil_div_le_iff: "0 < i \<Longrightarrow> ceil_div m i \<le> c \<longleftrightarrow> m \<le> c * i"
proof -
  assume i: "0 < i"
  have m: "m = (m div i) * i + m mod i" by simp
  show ?thesis
  proof (cases "m mod i = 0")
    case True
    then have "m = (m div i) * i" using m by simp
    then show ?thesis using i True unfolding ceil_div_def
      by (metis (full_types) mult_le_cancel2)
  next
    case False
    have lt: "m mod i < i" using i by simp
    have "m div i + 1 \<le> c \<longleftrightarrow> m \<le> c * i"
    proof
      assume "m div i + 1 \<le> c"
      then have "(m div i + 1) * i \<le> c * i" by (rule mult_le_mono1)
      moreover have "m < (m div i + 1) * i" using m lt by (simp add: dividend_less_div_times)
      ultimately show "m \<le> c * i" by simp
    next
      assume a: "m \<le> c * i"
      show "m div i + 1 \<le> c"
      proof (rule ccontr)
        assume "\<not> m div i + 1 \<le> c"
        then have "c \<le> m div i" by simp
        then have "c * i \<le> (m div i) * i" by (rule mult_le_mono1)
        moreover have "(m div i) * i < m" using m False
          by (metis add_cancel_right_right le_add1 le_neq_implies_less)
        ultimately show False using a by linarith
      qed
    qed
    then show ?thesis using False by (simp add: ceil_div_def)
  qed
qed

lemma ceil_div_le: "0 < i \<Longrightarrow> ceil_div m i \<le> m"
  using ceil_div_le_iff [of i m m] by simp

lemma ceil_div_one: "ceil_div m (Suc 0) = m"
  by (simp add: ceil_div_def)

lemma ceil_div_ge: "0 < i \<Longrightarrow> m \<le> ceil_div m i * i"
  using ceil_div_le_iff [of i m "ceil_div m i"] by simp

text \<open>What is left for the other workers never needs a larger share than the one
  just taken.\<close>

lemma ceil_div_rest: "0 < n \<Longrightarrow> ceil_div (m - ceil_div m (Suc n)) n \<le> ceil_div m (Suc n)"
proof -
  assume n: "0 < n"
  have "m \<le> ceil_div m (Suc n) * Suc n" by (rule ceil_div_ge) simp
  then have "m - ceil_div m (Suc n) \<le> ceil_div m (Suc n) * n" by simp
  then show ?thesis using n by (simp add: ceil_div_le_iff)
qed

lemma chunk_loop_acc:
  "chunk_loop n xs acc = (fst (chunk_loop n xs []), acc @ snd (chunk_loop n xs []))"
proof (induction n arbitrary: xs acc)
  case 0
  show ?case by simp
next
  case (Suc n)
  show ?case
    by (simp add: splice_def Suc.IH [of _ "acc @ _"] Suc.IH [of _ "[_]"])
qed

lemma chunk_loop_Suc:
  "snd (chunk_loop (Suc n) xs []) =
     take (ceil_div (length xs) (Suc n)) xs #
     snd (chunk_loop n (drop (ceil_div (length xs) (Suc n)) xs) [])"
  "fst (chunk_loop (Suc n) xs []) = fst (chunk_loop n (drop (ceil_div (length xs) (Suc n)) xs) [])"
  by (simp_all add: splice_def chunk_loop_acc [of _ _ "[_]"])

lemma chunk_loop_length: "length (snd (chunk_loop n xs [])) = n"
  by (induction n arbitrary: xs) (simp_all add: chunk_loop_Suc del: chunk_loop.simps(2))

lemma chunk_loop_concat: "concat (snd (chunk_loop n xs [])) @ fst (chunk_loop n xs []) = xs"
  by (induction n arbitrary: xs) (simp_all add: chunk_loop_Suc del: chunk_loop.simps(2))

lemma chunk_loop_rest: "0 < n \<Longrightarrow> fst (chunk_loop n xs []) = []"
proof (induction n arbitrary: xs)
  case 0
  then show ?case by simp
next
  case (Suc n)
  show ?case
  proof (cases n)
    case 0
    then show ?thesis by (simp add: splice_def ceil_div_one)
  next
    case (Suc k)
    then show ?thesis using Suc.IH [of "drop (ceil_div (length xs) (Suc n)) xs"]
      by (simp add: chunk_loop_Suc del: chunk_loop.simps(2))
  qed
qed

lemma chunk_loop_bound:
  "0 < n \<Longrightarrow> c \<in> set (snd (chunk_loop n xs [])) \<Longrightarrow> length c \<le> ceil_div (length xs) n"
proof (induction n arbitrary: xs)
  case 0
  then show ?case by simp
next
  case (Suc n)
  let ?k = "ceil_div (length xs) (Suc n)"
  from Suc.prems(2) consider "c = take ?k xs" | "c \<in> set (snd (chunk_loop n (drop ?k xs) []))"
    by (auto simp: chunk_loop_Suc simp del: chunk_loop.simps(2))
  then show ?case
  proof cases
    case 1
    then show ?thesis by simp
  next
    case 2
    then have n: "0 < n" by (cases n) auto
    from Suc.IH [OF n 2] have "length c \<le> ceil_div (length xs - ?k) n" by simp
    also have "\<dots> \<le> ?k" using n by (rule ceil_div_rest)
    finally show ?thesis .
  qed
qed

lemma chunk_loop_sizes: "sorted_wrt (\<ge>) (map length (snd (chunk_loop n xs [])))"
proof (induction n arbitrary: xs)
  case 0
  show ?case by simp
next
  case (Suc n)
  let ?k = "ceil_div (length xs) (Suc n)"
  have k: "?k \<le> length xs" by (rule ceil_div_le) simp
  have "length c \<le> ?k" if "c \<in> set (snd (chunk_loop n (drop ?k xs) []))" for c
  proof -
    from that have n: "0 < n" by (cases n) auto
    from chunk_loop_bound [OF n that] have "length c \<le> ceil_div (length xs - ?k) n" by simp
    also have "\<dots> \<le> ?k" using n by (rule ceil_div_rest)
    finally show ?thesis .
  qed
  then show ?case using Suc.IH k
    by (auto simp: chunk_loop_Suc min_def simp del: chunk_loop.simps(2))
qed

lemma chunk_loop_nth:
  "k < n \<Longrightarrow>
   snd (chunk_loop n xs []) ! k =
     take (ceil_div (length xs - length (concat (take k (snd (chunk_loop n xs []))))) (n - k))
       (drop (length (concat (take k (snd (chunk_loop n xs []))))) xs)"
proof (induction n arbitrary: xs k)
  case 0
  then show ?case by simp
next
  case (Suc n)
  let ?c = "ceil_div (length xs) (Suc n)"
  have c: "?c \<le> length xs" by (rule ceil_div_le) simp
  show ?case
  proof (cases k)
    case 0
    then show ?thesis by (simp add: chunk_loop_Suc del: chunk_loop.simps(2))
  next
    case (Suc j)
    with Suc.prems have j: "j < n" by simp
    show ?thesis
      using Suc.IH [OF j, of "drop ?c xs"] c Suc
      by (simp add: chunk_loop_Suc min_def add.commute del: chunk_loop.simps(2))
  qed
qed

lemma chunk_loop_7_3:
  assumes "length xs = 7"
  shows "map length (snd (chunk_loop 3 xs [])) = [3, 2, 2]"
proof -
  have "ceil_div 7 3 = 3" and "ceil_div 4 2 = 2" and "ceil_div 2 1 = 2"
    by (simp_all add: ceil_div_def)
  then have c: "ceil_div 7 (Suc (Suc (Suc 0))) = 3" "ceil_div 4 (Suc (Suc 0)) = 2"
      "ceil_div 2 (Suc 0) = 2"
    by (simp_all only: numeral_3_eq_3 numeral_2_eq_2 One_nat_def)
  have "chunk_loop (Suc (Suc (Suc 0))) xs [] =
      ([], [take 3 xs, take 2 (drop 3 xs), take 2 (drop 5 xs)])"
    using assms by (simp add: splice_def c)
  then show ?thesis using assms by (simp add: numeral_3_eq_3)
qed


text \<open>
  Claim C1. For every list of file paths and every number \<open>n \<ge> 1\<close> of workers, the loop
  of \<^verbatim>\<open>_createFileTable\<close> produces \<open>n\<close> chunks; chunk number \<open>k\<close> (the loop counter is then
  \<open>n - k\<close>) is the first \<open>ceil(remaining / (n - k))\<close> of the paths not yet handed out; the
  chunks in order make up the input exactly, nothing is left in the array, the sizes
  never increase, and 7 paths for 3 workers give the sizes 3, 2, 2.
\<close>

theorem chunkPaths_partition:
  assumes "1 \<le> n"
  shows "length (snd (chunkPaths n xs)) = n
    \<and> (\<forall>k<n. snd (chunkPaths n xs) ! k =
          take (ceil_div (length xs - length (concat (take k (snd (chunkPaths n xs))))) (n - k))
            (drop (length (concat (take k (snd (chunkPaths n xs))))) xs))
    \<and> concat (snd (chunkPaths n xs)) = xs
    \<and> fst (chunkPaths n xs) = []
    \<and> sorted_wrt (\<ge>) (map length (snd (chunkPaths n xs)))
    \<and> (n = 3 \<and> length xs = 7 \<longrightarrow> map length (snd (chunkPaths n xs)) = [3, 2, 2])"
proof -
  from assms have n: "0 < n" by simp
  have rest: "fst (chunk_loop n xs []) = []" using n by (rule chunk_loop_rest)
  have cat: "concat (snd (chunk_loop n xs [])) = xs"
    using chunk_loop_concat [of n xs] rest by simp
  have nth: "\<forall>k<n. snd (chunk_loop n xs []) ! k =
          take (ceil_div (length xs - length (concat (take k (snd (chunk_loop n xs []))))) (n - k))
            (drop (length (concat (take k (snd (chunk_loop n xs []))))) xs)"
    using chunk_loop_nth [of _ n xs] by blast
  have ex: "n = 3 \<and> length xs = 7 \<longrightarrow> map length (snd (chunk_loop n xs [])) = [3, 2, 2]"
    using chunk_loop_7_3 [of xs] by blast
  show ?thesis
    unfolding chunkPaths_def
    using rest cat nth ex chunk_loop_length [of n xs] chunk_loop_sizes [of n xs]
    by (intro conjI)
qed

theorem chunkPaths_partition_witness:
  "(1::nat) \<le> 3
   \<and> concat (snd (chunkPaths 3 [''a'', ''b'', ''c'', ''d'', ''e'', ''f'', ''g'']))
       = [''a'', ''b'', ''c'', ''d'', ''e'', ''f'', ''g'']
   \<and> fst (chunkPaths 3 [''a'', ''b'', ''c'', ''d'', ''e'', ''f'', ''g'']) = []
   \<and> map length (snd (chunkPaths 3 [''a'', ''b'', ''c'', ''d'', ''e'', ''f'', ''g''])) = [3, 2, 2]"
  using chunkPaths_partition [of 3 "[''a'', ''b'', ''c'', ''d'', ''e'', ''f'', ''g'']"]
  by simp

subsection \<open>Shutting down twice\<close>

text \<open>
  Claim C8. \<^verbatim>\<open>kill\<close> calls \<^verbatim>\<open>kill()\<close> on every worker handle of the list, in order, and
  empties the list; it has no result and no error branch. A second \<^verbatim>\<open>kill\<close> finds no
  handle, calls nothing and leaves the cluster and the world as the first left them.
  (The field \<^verbatim>\<open>_worker\<close> keeps the local worker; the claim is about the list.)
\<close>

theorem kill_idempotent:
  "kill (fst (kill cluster w)) (snd (kill cluster w)) = kill cluster w
   \<and> cluster_workers (fst (kill cluster w)) = []
   \<and> cluster_worker (fst (kill cluster w)) = cluster_worker cluster
   \<and> calls (snd (kill cluster w)) =
       calls w @ map (\<lambda>worker. WorkerKill (worker_id worker)) (cluster_workers cluster)
   \<and> ctxToken (snd (kill cluster w)) = ctxToken w"
  by (simp add: kill_def emit_def)

subsection \<open>A query whose plan is empty\<close>

lemma startsWith_iff: "startsWith s t \<longleftrightarrow> (\<exists>r. s = t @ r)"
  by (induction s t rule: startsWith.induct) auto

text \<open>\<^verbatim>\<open>includes\<close> finds exactly the substrings.\<close>

lemma js_includes_iff: "js_includes s t \<longleftrightarrow> (\<exists>p r. s = p @ t @ r)"
proof (induction s)
  case Nil
  show ?case by auto
next
  case (Cons d s)
  show ?case
  proof
    assume "js_includes (d # s) t"
    then consider "startsWith (d # s) t" | "js_includes s t" by auto
    then show "\<exists>p r. d # s = p @ t @ r"
    proof cases
      case 1
      then obtain r where "d # s = t @ r" by (auto simp: startsWith_iff)
      then have "d # s = [] @ t @ r" by simp
      then show ?thesis by blast
    next
      case 2
      then obtain p r where "s = p @ t @ r" using Cons.IH by blast
      then have "d # s = (d # p) @ t @ r" by simp
      then show ?thesis by blast
    qed
  next
    assume "\<exists>p r. d # s = p @ t @ r"
    then obtain p r where pr: "d # s = p @ t @ r" by blast
    show "js_includes (d # s) t"
    proof (cases p)
      case Nil
      with pr have "startsWith (d # s) t" by (auto simp: startsWith_iff)
      then show ?thesis by simp
    next
      case (Cons x q)
      with pr have "s = q @ t @ r" by simp
      then have "js_includes s t" using Cons.IH by blast
      then show ?thesis by simp
    qed
  qed
qed

text \<open>
  Claim C5. When the plan explanation of the query contains
  \<^verbatim>\<open>LogicalValues(tuples=[[]])\<close>, \<^verbatim>\<open>sql\<close> ends at once: no batch is yielded, the generator
  returns, and the world is untouched, so no \<^verbatim>\<open>worker.sql\<close> call is made and no token is
  taken.
\<close>

theorem sql_empty_plan:
  assumes "explain query False = Inr (p @ ''LogicalValues(tuples=[[]])'' @ r)"
  shows "sql explain respond consumer cluster query now w = (([], Done), w)"
proof -
  have "js_includes (p @ ''LogicalValues(tuples=[[]])'' @ r) ''LogicalValues(tuples=[[]])''"
    unfolding js_includes_iff by blast
  then show ?thesis using assms by (simp add: sql_def)
qed

theorem sql_empty_plan_witness:
  "sql (\<lambda>q d. Inr ''LogicalProject(a=[$0])\<newline>  LogicalValues(tuples=[[]])\<newline>'')
       (\<lambda>c. Fulfills 1 [''batch'']) (\<lambda>k. 0) (SQLCluster_new 0 2) ''SELECT a FROM t WHERE 1 = 0'' 0
       \<lparr>ctxToken = 4, calls = []\<rparr>
   = (([], Done), \<lparr>ctxToken = 4, calls = []\<rparr>)"
  using sql_empty_plan [of "\<lambda>q d. Inr ''LogicalProject(a=[$0])\<newline>  LogicalValues(tuples=[[]])\<newline>''"
      "''SELECT a FROM t WHERE 1 = 0''" "''LogicalProject(a=[$0])\<newline>  ''" "''\<newline>''"
      "\<lambda>c. Fulfills 1 [''batch'']" "\<lambda>k. 0" "SQLCluster_new 0 2" 0 "\<lparr>ctxToken = 4, calls = []\<rparr>"]
  by simp

subsection \<open>The caller's array of file paths\<close>

lemma cluster2: "SQLCluster_new 0 2 =
    \<lparr>cluster_worker = LocalSQLWorker 0,
     cluster_workers = [RemoteSQLWorker 1 1, LocalSQLWorker 0]\<rparr>"
  by code_simp

lemma createFileTable_filePath:
  "fst (snd (createFileTable ps atc respond cluster tn fps ft cb now w)) =
     fst (chunkPaths (length (cluster_workers cluster)) fps)"
  by (simp add: createFileTable_def split: prod.splits)

lemma chunkPaths_rest: "fst (chunkPaths n fps) = (if n = 0 then fps else [])"
  by (simp add: chunkPaths_def chunk_loop_rest)

text \<open>
  Claim C10, as the code has it. \<^verbatim>\<open>createCSVTable\<close>, \<^verbatim>\<open>createParquetTable\<close> and
  \<^verbatim>\<open>createORCTable\<close> splice the caller's array while chunking: when the cluster has at
  least one worker the array is empty afterwards (whatever the workers answer); when
  it has none the loop does not run and the array is left as it was.
\<close>

theorem file_tables_consume_filePaths:
  "fst (snd (createCSVTable ps atc respond cluster tn fps now w)) =
     (if cluster_workers cluster = [] then fps else [])
   \<and> fst (snd (createParquetTable ps atc respond cluster tn fps now w)) =
     (if cluster_workers cluster = [] then fps else [])
   \<and> fst (snd (createORCTable ps atc respond cluster tn fps now w)) =
     (if cluster_workers cluster = [] then fps else [])"
  by (simp add: createCSVTable_def createParquetTable_def createORCTable_def
      createFileTable_filePath chunkPaths_rest)

text \<open>
  Claim C10 as stated fails on a cluster without workers, such as one that was killed:
  \<^verbatim>\<open>cluster.kill(); await cluster.createCSVTable('t', paths)\<close> returns and \<^verbatim>\<open>paths\<close> still
  holds its path.
\<close>

theorem file_table_keeps_filePaths_without_workers:
  "fst (snd (createCSVTable
      (\<lambda>input fileType. \<lparr>schema_names = [''a''], schema_types = [()]\<rparr>) (\<lambda>ty. ())
      (\<lambda>c. Fulfills 1 ())
      (fst (kill (SQLCluster_new 0 2) (world0 :: (unit, unit) DataFrame world)))
      ''t'' [''a.csv''] 0
      (snd (kill (SQLCluster_new 0 2) (world0 :: (unit, unit) DataFrame world)))))
   = [''a.csv'']"
  by (simp add: createCSVTable_def createFileTable_filePath chunkPaths_rest kill_def)

subsection \<open>Context tokens\<close>

text \<open>
  Claim C3 at a concrete run. On a cluster of two workers and a counter at 0,
  \<^verbatim>\<open>createCSVTable('t', ['a.csv'])\<close> leaves the second worker without a file; the
  counter becomes 1 and the empty table is sent to that worker under token 1. The next
  query takes the value of the counter, 1, as its token and moves the counter to 2.
  The send and the query have the same token.
\<close>

theorem send_and_query_share_a_token:
  "calls (snd (sql (\<lambda>q d. Inr ''LogicalTableScan(table=[[main, t]])'') (\<lambda>c. Fulfills 1 [])
      (\<lambda>k. 0) (SQLCluster_new 0 2) ''SELECT * FROM t'' 1
      (snd (snd (createCSVTable
         (\<lambda>input fileType. \<lparr>schema_names = [''a''], schema_types = [()]\<rparr>) (\<lambda>ty. ())
         (\<lambda>c. Fulfills 1 ()) (SQLCluster_new 0 2) ''t'' [''a.csv''] 0
         (world0 :: (unit, unit) DataFrame world))))))
   = [WorkerCreateCSVTable 0 ''t'' [''a.csv''],
      ContextSend 1 1 ''broadcast_table_message_1''
        (DataFrame [(''a'', \<lparr>series_type = (), series_data = []\<rparr>)]),
      WorkerCreateDataFrameTable 1 ''t'' (Some ''broadcast_table_message_1''),
      WorkerSql 1 ''SELECT * FROM t'' 1,
      WorkerSql 0 ''SELECT * FROM t'' 1]"
  by code_simp

subsection \<open>Awaiting several promises\<close>

lemma foldl_max_ge: "a \<le> foldl max a xs" "x \<in> set xs \<Longrightarrow> x \<le> foldl max (a::nat) xs"
proof -
  show "a \<le> foldl max a xs"
    by (induction xs arbitrary: a) (auto intro: order_trans [OF max.cobounded1])
next
  show "x \<in> set xs \<Longrightarrow> x \<le> foldl max (a::nat) xs"
  proof (induction xs arbitrary: a)
    case Nil
    then show ?case by simp
  next
    case (Cons y ys)
    have "max a y \<le> foldl max (max a y) ys"
      by (induction ys arbitrary: a y) (auto intro: order_trans [OF max.cobounded1])
    with Cons show ?case by auto
  qed
qed

lemma earliest_None: "earliest xs = None \<longleftrightarrow> xs = []"
  by (cases xs) (auto split: option.splits)

lemma earliest_least: "earliest xs = Some x \<Longrightarrow> y \<in> set xs \<Longrightarrow> fst x \<le> fst y"
  by (induction xs arbitrary: x) (auto split: option.splits if_splits simp: earliest_None)

lemma rejections_mem:
  "(t', e) \<in> set (rejections now ps) \<longleftrightarrow> (\<exists>t. Rejects t e \<in> set ps \<and> t' = max now t)"
  by (induction now ps rule: rejections.induct) auto

lemma fulfilments_mem:
  "(t', v) \<in> set (fulfilments now ps) \<longleftrightarrow> (\<exists>t. Fulfills t v \<in> set ps \<and> t' = max now t)"
  by (induction now ps rule: fulfilments.induct) auto

lemma fulfilments_all:
  "list_all (\<lambda>p. \<exists>t v. p = Fulfills t v) ps \<Longrightarrow>
     rejections now ps = [] \<and> Never \<notin> set ps \<and> length (fulfilments now ps) = length ps"
  by (induction now ps rule: fulfilments.induct) auto

lemma promise_all_Returned:
  "promise_all now ps = Returned t vs \<longleftrightarrow>
     (list_all (\<lambda>p. \<exists>t v. p = Fulfills t v) ps
      \<and> t = foldl max now (map fst (fulfilments now ps)) \<and> vs = map snd (fulfilments now ps))"
proof
  assume r: "promise_all now ps = Returned t vs"
  then have e: "rejections now ps = []" and n: "Never \<notin> set ps"
    by (auto simp: promise_all_def earliest_None split: option.splits prod.splits if_splits)
  have "list_all (\<lambda>p. \<exists>t v. p = Fulfills t v) ps" using e n
    by (induction now ps rule: rejections.induct) auto
  then show "list_all (\<lambda>p. \<exists>t v. p = Fulfills t v) ps
      \<and> t = foldl max now (map fst (fulfilments now ps)) \<and> vs = map snd (fulfilments now ps)"
    using r e n by (auto simp: promise_all_def)
next
  assume "list_all (\<lambda>p. \<exists>t v. p = Fulfills t v) ps
      \<and> t = foldl max now (map fst (fulfilments now ps)) \<and> vs = map snd (fulfilments now ps)"
  then show "promise_all now ps = Returned t vs"
    using fulfilments_all [of ps now] by (auto simp: promise_all_def)
qed

lemma promise_all_Thrown:
  "promise_all now ps = Thrown t e \<longleftrightarrow> earliest (rejections now ps) = Some (t, e)"
  by (auto simp: promise_all_def split: option.splits)


subsection \<open>The pool of workers\<close>













subsection \<open>What the file-table callback does\<close>

lemma dispatch_Cons_nonempty:
  "chunk \<noteq> [] \<Longrightarrow> dispatch cb tn e ((worker, chunk) # rest) w =
     (cb worker chunk # fst (dispatch cb tn e rest (emit [cb worker chunk] w)),
      snd (dispatch cb tn e rest (emit [cb worker chunk] w)))"
  by (simp add: Let_def split: prod.splits)

lemma dispatch_Cons_empty:
  "dispatch cb tn e ((worker, []) # rest) w =
     (WorkerCreateDataFrameTable (worker_id worker) tn (Some (message_id (ctxToken w + 1))) #
        fst (dispatch cb tn e rest
          (emit [ContextSend (worker_id worker) (ctxToken w + 1) (message_id (ctxToken w + 1)) e,
                 WorkerCreateDataFrameTable (worker_id worker) tn (Some (message_id (ctxToken w + 1)))]
             (w\<lparr>ctxToken := ctxToken w + 1\<rparr>))),
      snd (dispatch cb tn e rest
          (emit [ContextSend (worker_id worker) (ctxToken w + 1) (message_id (ctxToken w + 1)) e,
                 WorkerCreateDataFrameTable (worker_id worker) tn (Some (message_id (ctxToken w + 1)))]
             (w\<lparr>ctxToken := ctxToken w + 1\<rparr>))))"
  by (simp add: Let_def split: prod.splits)

lemma dispatch_length: "length (fst (dispatch cb tn e l w)) = length l"
proof (induction l arbitrary: w)
  case Nil
  show ?case by simp
next
  case (Cons x l)
  obtain worker chunk where x: "x = (worker, chunk)" by (cases x)
  show ?case unfolding x
    by (cases "chunk = []")
       (simp_all add: dispatch_Cons_nonempty dispatch_Cons_empty Cons.IH del: dispatch.simps(2))
qed

lemma dispatch_calls:
  "\<exists>new. calls (snd (dispatch cb tn e l w)) = calls w @ new
     \<and> set (fst (dispatch cb tn e l w)) \<subseteq> set new
     \<and> (\<forall>c\<in>set new. c \<in> set (fst (dispatch cb tn e l w)) \<or> (\<exists>i tok m. c = ContextSend i tok m e))"
proof (induction l arbitrary: w)
  case Nil
  show ?case by simp
next
  case (Cons x l)
  obtain worker chunk where x: "x = (worker, chunk)" by (cases x)
  show ?case
  proof (cases "chunk = []")
    case False
    let ?w = "emit [cb worker chunk] w"
    from Cons.IH [of ?w] obtain new where n:
      "calls (snd (dispatch cb tn e l ?w)) = calls ?w @ new"
      "set (fst (dispatch cb tn e l ?w)) \<subseteq> set new"
      "\<forall>c\<in>set new. c \<in> set (fst (dispatch cb tn e l ?w)) \<or> (\<exists>i tok m. c = ContextSend i tok m e)"
      by blast
    have "calls (snd (dispatch cb tn e (x # l) w)) = calls w @ (cb worker chunk # new)"
      using n(1) False by (simp add: x dispatch_Cons_nonempty emit_def del: dispatch.simps(2))
    moreover have "set (fst (dispatch cb tn e (x # l) w)) \<subseteq> set (cb worker chunk # new)"
      using n(2) False by (auto simp: x dispatch_Cons_nonempty simp del: dispatch.simps(2))
    moreover have "\<forall>c\<in>set (cb worker chunk # new).
        c \<in> set (fst (dispatch cb tn e (x # l) w)) \<or> (\<exists>i tok m. c = ContextSend i tok m e)"
      using n(3) False by (auto simp: x dispatch_Cons_nonempty simp del: dispatch.simps(2))
    ultimately show ?thesis by blast
  next
    case True
    let ?m = "message_id (ctxToken w + 1)"
    let ?c = "WorkerCreateDataFrameTable (worker_id worker) tn (Some ?m)"
    let ?s = "ContextSend (worker_id worker) (ctxToken w + 1) ?m e"
    let ?w = "emit [?s, ?c] (w\<lparr>ctxToken := ctxToken w + 1\<rparr>)"
    from Cons.IH [of ?w] obtain new where n:
      "calls (snd (dispatch cb tn e l ?w)) = calls ?w @ new"
      "set (fst (dispatch cb tn e l ?w)) \<subseteq> set new"
      "\<forall>c\<in>set new. c \<in> set (fst (dispatch cb tn e l ?w)) \<or> (\<exists>i tok m. c = ContextSend i tok m e)"
      by blast
    have "calls (snd (dispatch cb tn e (x # l) w)) = calls w @ (?s # ?c # new)"
      using n(1) True by (simp add: x dispatch_Cons_empty emit_def del: dispatch.simps(2))
    moreover have "set (fst (dispatch cb tn e (x # l) w)) \<subseteq> set (?s # ?c # new)"
      using n(2) True by (auto simp: x dispatch_Cons_empty simp del: dispatch.simps(2))
    moreover have "\<forall>c\<in>set (?s # ?c # new).
        c \<in> set (fst (dispatch cb tn e (x # l) w)) \<or> (\<exists>i tok m. c = ContextSend i tok m e)"
      using n(3) True by (auto simp: x dispatch_Cons_empty simp del: dispatch.simps(2))
    ultimately show ?thesis by blast
  qed
qed


lemma dispatch_nonempty:
  "i < length l \<Longrightarrow> l ! i = (worker, chunk) \<Longrightarrow> chunk \<noteq> [] \<Longrightarrow>
     fst (dispatch cb tn e l w) ! i = cb worker chunk"
proof (induction l arbitrary: w i)
  case Nil
  then show ?case by simp
next
  case (Cons x l)
  obtain worker' chunk' where x: "x = (worker', chunk')" by (cases x)
  show ?case
  proof (cases i)
    case 0
    with Cons.prems show ?thesis
      by (simp add: x dispatch_Cons_nonempty del: dispatch.simps(2))
  next
    case (Suc j)
    with Cons.prems have j: "j < length l" "l ! j = (worker, chunk)" by auto
    show ?thesis unfolding x Suc
      by (cases "chunk' = []")
         (simp_all add: dispatch_Cons_nonempty dispatch_Cons_empty
            Cons.IH [OF j Cons.prems(3)] del: dispatch.simps(2))
  qed
qed

lemma dispatch_empty:
  "i < length l \<Longrightarrow> l ! i = (worker, []) \<Longrightarrow>
     \<exists>tok pre post. ctxToken w < tok
       \<and> calls (snd (dispatch cb tn e l w)) =
           pre @ [ContextSend (worker_id worker) tok (message_id tok) e,
                  WorkerCreateDataFrameTable (worker_id worker) tn (Some (message_id tok))] @ post
       \<and> fst (dispatch cb tn e l w) ! i =
           WorkerCreateDataFrameTable (worker_id worker) tn (Some (message_id tok))"
proof (induction l arbitrary: w i)
  case Nil
  then show ?case by simp
next
  case (Cons x l)
  obtain worker' chunk' where x: "x = (worker', chunk')" by (cases x)
  let ?m = "message_id (ctxToken w + 1)"
  let ?c = "WorkerCreateDataFrameTable (worker_id worker') tn (Some ?m)"
  let ?s = "ContextSend (worker_id worker') (ctxToken w + 1) ?m e"
  let ?w = "emit [?s, ?c] (w\<lparr>ctxToken := ctxToken w + 1\<rparr>)"
  show ?case
  proof (cases i)
    case 0
    with Cons.prems have eq: "worker' = worker" "chunk' = []" by (auto simp: x)
    obtain new where "calls (snd (dispatch cb tn e l ?w)) = calls ?w @ new"
      using dispatch_calls [of cb tn e l ?w] by blast
    then have "calls (snd (dispatch cb tn e (x # l) w)) = calls w @ [?s, ?c] @ new"
      using eq by (simp add: x dispatch_Cons_empty emit_def del: dispatch.simps(2))
    moreover have "fst (dispatch cb tn e (x # l) w) ! i = ?c"
      using eq 0 by (simp add: x dispatch_Cons_empty del: dispatch.simps(2))
    moreover have "ctxToken w < ctxToken w + 1" by simp
    ultimately show ?thesis unfolding eq by blast
  next
    case (Suc j)
    with Cons.prems have j: "j < length l" "l ! j = (worker, [])" by auto
    show ?thesis
    proof (cases "chunk' = []")
      case False
      from Cons.IH [OF j, of "emit [cb worker' chunk'] w"] show ?thesis using False
        by (simp add: x Suc dispatch_Cons_nonempty emit_def del: dispatch.simps(2))
    next
      case True
      from Cons.IH [OF j, of ?w] obtain tok pre post where t:
        "ctxToken ?w < tok"
        "calls (snd (dispatch cb tn e l ?w)) =
           pre @ [ContextSend (worker_id worker) tok (message_id tok) e,
                  WorkerCreateDataFrameTable (worker_id worker) tn (Some (message_id tok))] @ post"
        "fst (dispatch cb tn e l ?w) ! j =
           WorkerCreateDataFrameTable (worker_id worker) tn (Some (message_id tok))"
        by blast
      have "ctxToken w < tok" using t(1) by (simp add: emit_def)
      moreover have "calls (snd (dispatch cb tn e (x # l) w)) =
           pre @ [ContextSend (worker_id worker) tok (message_id tok) e,
                  WorkerCreateDataFrameTable (worker_id worker) tn (Some (message_id tok))] @ post"
        using t(2) True by (simp add: x dispatch_Cons_empty del: dispatch.simps(2))
      moreover have "fst (dispatch cb tn e (x # l) w) ! i =
           WorkerCreateDataFrameTable (worker_id worker) tn (Some (message_id tok))"
        using t(3) True by (simp add: x Suc dispatch_Cons_empty del: dispatch.simps(2))
      ultimately show ?thesis by blast
    qed
  qed
qed

subsection \<open>The object built from the schema\<close>

lemma insert_index_set: "set (insert_index n k v obj) = insert (k, v) (set obj)"
  by (induction obj) (auto split: option.splits if_splits)

lemma insert_index_length: "length (insert_index n k v obj) = Suc (length obj)"
  by (induction obj) (auto split: option.splits)

lemma insert_index_distinct:
  "k \<notin> set (map fst obj) \<Longrightarrow> distinct (map fst obj) \<Longrightarrow> distinct (map fst (insert_index n k v obj))"
proof (induction obj)
  case Nil
  show ?case by simp
next
  case (Cons x obj)
  have "fst ` set (insert_index n k v obj) = insert k (fst ` set obj)"
    by (simp add: insert_index_set)
  with Cons show ?case by (cases x) (auto split: option.splits)
qed

lemma insert_index_map_of:
  "k \<notin> set (map fst obj) \<Longrightarrow>
     map_of (insert_index n k v obj) x = (if x = k then Some v else map_of obj x)"
  by (induction obj) (auto split: option.splits)

lemma replace_map_of:
  "map_of (map (\<lambda>(k', v'). if k' = k then (k', v) else (k', v')) obj) x =
     (if x = k \<and> k \<in> set (map fst obj) then Some v else map_of obj x)"
proof (induction obj arbitrary: x)
  case Nil
  show ?case by simp
next
  case (Cons y obj)
  obtain k' v' where y: "y = (k', v')" by (cases y)
  show ?case
  proof (cases "k' = k")
    case True
    then show ?thesis by (simp add: y Cons.IH)
  next
    case False
    then show ?thesis by (simp add: y Cons.IH)
  qed
qed

lemma append_map_of:
  "k \<notin> set (map fst obj) \<Longrightarrow>
     map_of (obj @ [(k, v)]) x = (if x = k then Some v else map_of obj x)"
  by (induction obj) auto

lemma js_set_map_of: "map_of (js_set k v obj) x = (if x = k then Some v else map_of obj x)"
proof (cases "k \<in> set (map fst obj)")
  case True
  then show ?thesis unfolding js_set_def by (simp only: replace_map_of if_True) simp
next
  case False
  show ?thesis
  proof (cases "array_index k")
    case None
    with False show ?thesis unfolding js_set_def
      by (simp only: if_False option.case append_map_of [OF False])
  next
    case (Some m)
    with False show ?thesis unfolding js_set_def
      by (simp only: if_False option.case insert_index_map_of [OF False])
  qed
qed

lemma js_set_keys: "set (map fst (js_set k v obj)) = insert k (set (map fst obj))"
proof (cases "k \<in> set (map fst obj)")
  case True
  have "map fst (map (\<lambda>(k', v'). if k' = k then (k', v) else (k', v')) obj) = map fst obj"
    by (induction obj) auto
  with True show ?thesis by (auto simp: js_set_def simp del: map_map)
next
  case False
  then show ?thesis
    by (auto simp: js_set_def insert_index_set image_iff split: option.splits)
qed

lemma js_set_distinct: "distinct (map fst obj) \<Longrightarrow> distinct (map fst (js_set k v obj))"
proof (cases "k \<in> set (map fst obj)")
  case True
  have "map fst (map (\<lambda>(k', v'). if k' = k then (k', v) else (k', v')) obj) = map fst obj"
    by (induction obj) auto
  with True show "distinct (map fst obj) \<Longrightarrow> ?thesis" by (simp add: js_set_def del: map_map)
next
  case False
  then show "distinct (map fst obj) \<Longrightarrow> ?thesis"
    using insert_index_distinct [of k obj] by (auto simp: js_set_def split: option.splits)
qed

lemma js_set_length: "k \<notin> set (map fst obj) \<Longrightarrow> length (js_set k v obj) = Suc (length obj)"
  by (auto simp: js_set_def insert_index_length split: option.splits)

lemma js_set_values: "snd ` set (js_set k v obj) \<subseteq> insert v (snd ` set obj)"
proof (cases "k \<in> set (map fst obj)")
  case True
  then show ?thesis by (auto simp: js_set_def split: if_splits)
next
  case False
  then show ?thesis by (auto simp: js_set_def insert_index_set split: option.splits)
qed

lemma js_set_append:
  "k \<notin> set (map fst obj) \<Longrightarrow> array_index k = None \<Longrightarrow> js_set k v obj = obj @ [(k, v)]"
  by (simp add: js_set_def)

lemma reduce_snoc:
  "foldl (\<lambda>xs (i, name). js_set name (S i) xs) [] (enumerate 0 (ns @ [n])) =
     js_set n (S (length ns)) (foldl (\<lambda>xs (i, name). js_set name (S i) xs) [] (enumerate 0 ns))"
  by (simp add: enumerate_append_eq)

lemma reduce_keys:
  "set (map fst (foldl (\<lambda>xs (i, name). js_set name (S i) xs) [] (enumerate 0 ns))) = set ns"
proof (induction ns rule: rev_induct)
  case Nil
  show ?case by simp
next
  case (snoc n ns)
  show ?case unfolding reduce_snoc js_set_keys snoc.IH by simp
qed

lemma reduce_values:
  "snd ` set (foldl (\<lambda>xs (i, name). js_set name (S i) xs) [] (enumerate 0 ns)) \<subseteq> range S"
proof (induction ns rule: rev_induct)
  case Nil
  show ?case by simp
next
  case (snoc n ns)
  show ?case unfolding reduce_snoc using js_set_values [of n "S (length ns)"] snoc.IH by blast
qed

lemma reduce_order:
  "distinct ns \<Longrightarrow> list_all (\<lambda>n. array_index n = None) ns \<Longrightarrow>
   map fst (foldl (\<lambda>xs (i, name). js_set name (S i) xs) [] (enumerate 0 ns)) = ns"
proof (induction ns rule: rev_induct)
  case Nil
  show ?case by simp
next
  case (snoc n ns)
  then have "n \<notin> set (map fst (foldl (\<lambda>xs (i, name). js_set name (S i) xs) [] (enumerate 0 ns)))"
    unfolding reduce_keys by simp
  then show ?case unfolding reduce_snoc using snoc by (simp add: js_set_append)
qed

subsection \<open>Fan-out without streaming\<close>

lemma promise_all_awaited: "awaited_all now ps (promise_all now ps)"
proof (cases "promise_all now ps")
  case (Returned t vs)
  then have a: "list_all (\<lambda>p. \<exists>t v. p = Fulfills t v) ps"
    and t: "t = foldl max now (map fst (fulfilments now ps))"
    by (simp_all add: promise_all_Returned)
  have "\<exists>t' v. p = Fulfills t' v \<and> t' \<le> t" if "p \<in> set ps" for p
  proof -
    from a that obtain t' v where p: "p = Fulfills t' v" by (auto simp: list_all_iff)
    with that have "(max now t', v) \<in> set (fulfilments now ps)" by (auto simp: fulfilments_mem)
    then have "max now t' \<in> set (map fst (fulfilments now ps))" by force
    then have "max now t' \<le> t" unfolding t by (rule foldl_max_ge(2))
    with p show ?thesis by simp
  qed
  then show ?thesis using Returned by (simp add: awaited_all_def list_all_iff)
next
  case (Thrown t e)
  then have e: "earliest (rejections now ps) = Some (t, e)" by (simp add: promise_all_Thrown)
  from earliest_mem [OF e] have 1: "\<exists>t'. Rejects t' e \<in> set ps \<and> t = max now t'"
    by (simp add: rejections_mem)
  have 2: "t \<le> max now t''" if "Rejects t'' e'' \<in> set ps" for t'' e''
  proof -
    from that have "(max now t'', e'') \<in> set (rejections now ps)" by (auto simp: rejections_mem)
    from earliest_least [OF e this] show ?thesis by simp
  qed
  show ?thesis using Thrown 1 2 by (auto simp: awaited_all_def list_all_iff)
next
  case Blocked
  then have "rejections now ps = []" and n: "Never \<in> set ps"
    by (auto simp: promise_all_def earliest_None split: option.splits prod.splits if_splits)
  then have "\<forall>t e. Rejects t e \<notin> set ps"
    using rejections_mem [of _ _ now ps] by (metis empty_iff empty_set)
  then show ?thesis using Blocked n by (auto simp: awaited_all_def list_all_iff)
qed

text \<open>
  Claim C6, as the code has it. \<^verbatim>\<open>dropTable\<close>, \<^verbatim>\<open>createDataFrameTable\<close> and the file-table
  creation send their call to every worker and await \<^verbatim>\<open>Promise.all\<close> of the answers: the
  operation returns only when every worker has succeeded (and then all have finished);
  it fails with the reason of the first worker to fail, at that instant, whether or
  not the other workers have finished. The calls the coordinator makes are the
  dispatches (and the channel transfers) alone and do not depend on the answers:
  nothing is undone.
\<close>

theorem fan_out_fails_fast:
  assumes "drops = map (\<lambda>worker. WorkerDropTable (worker_id worker) tableName)
                     (cluster_workers cluster)"
    and "creates = map (\<lambda>(i, worker). WorkerCreateDataFrameTable (worker_id worker) tableName
                         (nth_opt (rev (broadcast (ctxToken w) input)) i))
                     (enumerate 0 (cluster_workers cluster))"
    and "files = dispatch cb tableName (empty_frame arrowToCUDFType (parseSchema filePath fileType))
                   (zip (rev (cluster_workers cluster))
                      (snd (chunkPaths (length (cluster_workers cluster)) filePath))) w'"
  shows "awaited_all now (map respond drops) (fst (dropTable respond cluster tableName now w))
    \<and> snd (dropTable respond cluster tableName now w) = emit drops w
    \<and> awaited_all now (map respond creates)
        (fst (createDataFrameTable broadcast respond cluster tableName input now w))
    \<and> calls (snd (createDataFrameTable broadcast respond cluster tableName input now w)) =
        calls w @ ContextBroadcast (ctxToken w) input # creates
    \<and> awaited_all now (map respond' (fst files))
        (fst (createFileTable parseSchema arrowToCUDFType respond' cluster tableName filePath fileType
                cb now w'))
    \<and> snd (snd (createFileTable parseSchema arrowToCUDFType respond' cluster tableName filePath
                   fileType cb now w')) = snd files
    \<and> length (fst files) = length (cluster_workers cluster)
    \<and> (\<exists>new. calls (snd files) = calls w' @ new
         \<and> (\<forall>c\<in>set new. c \<in> set (fst files) \<or> (\<exists>i tok m. c = ContextSend i tok m
               (empty_frame arrowToCUDFType (parseSchema filePath fileType)))))"
proof -
  have 1: "awaited_all now (map respond drops) (fst (dropTable respond cluster tableName now w))"
    unfolding assms(1) dropTable_def Let_def fst_conv by (rule promise_all_awaited)
  have 2: "snd (dropTable respond cluster tableName now w) = emit drops w"
    by (simp add: assms(1) dropTable_def Let_def)
  have "fst (createDataFrameTable broadcast respond cluster tableName input now w) =
      promise_all now (map respond creates)"
    by (simp add: assms(2) createDataFrameTable_def Let_def)
  then have 3: "awaited_all now (map respond creates)
        (fst (createDataFrameTable broadcast respond cluster tableName input now w))"
    by (simp only: promise_all_awaited)
  have 4: "calls (snd (createDataFrameTable broadcast respond cluster tableName input now w)) =
        calls w @ ContextBroadcast (ctxToken w) input # creates"
    by (simp add: assms(2) createDataFrameTable_def Let_def emit_def)
  let ?E = "empty_frame arrowToCUDFType (parseSchema filePath fileType)"
  obtain fp ch where c: "chunkPaths (length (cluster_workers cluster)) filePath = (fp, ch)"
    by (cases "chunkPaths (length (cluster_workers cluster)) filePath")
  obtain cs w'' where d: "dispatch cb tableName ?E (zip (rev (cluster_workers cluster)) ch) w' = (cs, w'')"
    by (cases "dispatch cb tableName ?E (zip (rev (cluster_workers cluster)) ch) w'")
  have f: "files = (cs, w'')" unfolding assms(3) c snd_conv by (rule d)
  have cf: "createFileTable parseSchema arrowToCUDFType respond' cluster tableName filePath fileType
                cb now w' = (promise_all now (map respond' cs), fp, w'')"
    by (simp add: createFileTable_def c d)
  have 5: "awaited_all now (map respond' (fst files))
        (fst (createFileTable parseSchema arrowToCUDFType respond' cluster tableName filePath fileType
                cb now w'))"
    unfolding cf f fst_conv by (rule promise_all_awaited)
  have 6: "snd (snd (createFileTable parseSchema arrowToCUDFType respond' cluster tableName filePath
                   fileType cb now w')) = snd files"
    unfolding cf f by simp
  have "length ch = length (cluster_workers cluster)"
    using c chunk_loop_length [of "length (cluster_workers cluster)" filePath]
    by (simp add: chunkPaths_def)
  then have 7: "length (fst files) = length (cluster_workers cluster)"
    using dispatch_length [of cb tableName ?E "zip (rev (cluster_workers cluster)) ch" w']
    unfolding d f by simp
  from dispatch_calls [of cb tableName ?E "zip (rev (cluster_workers cluster)) ch" w']
  obtain new where "calls w'' = calls w' @ new"
    "\<forall>c\<in>set new. c \<in> set cs \<or> (\<exists>i tok m. c = ContextSend i tok m ?E)"
    unfolding d fst_conv snd_conv by blast
  then have 8: "\<exists>new. calls (snd files) = calls w' @ new
         \<and> (\<forall>c\<in>set new. c \<in> set (fst files) \<or> (\<exists>i tok m. c = ContextSend i tok m
               (empty_frame arrowToCUDFType (parseSchema filePath fileType))))"
    unfolding f fst_conv snd_conv by blast
  show ?thesis using 1 2 3 4 5 6 7 8 by (intro conjI)
qed


theorem fan_out_fails_fast_witness:
  "awaited_all 0
     (map (\<lambda>c. case c of
              WorkerDropTable i n \<Rightarrow>
                if i = 1 then Rejects 1 (Error ''no such table'') else Fulfills 5 ()
            | _ \<Rightarrow> Never)
        (map (\<lambda>worker. WorkerDropTable (worker_id worker) ''t'')
           (cluster_workers (SQLCluster_new 0 2)) :: unit call list))
     (fst (dropTable (\<lambda>c. case c of
              WorkerDropTable i n \<Rightarrow>
                if i = 1 then Rejects 1 (Error ''no such table'') else Fulfills 5 ()
            | _ \<Rightarrow> Never) (SQLCluster_new 0 2) ''t'' 0 (world0 :: unit world)))
   \<and> map (\<lambda>worker. WorkerDropTable (worker_id worker) ''t'')
           (cluster_workers (SQLCluster_new 0 2))
       = [WorkerDropTable 1 ''t'', WorkerDropTable 0 ''t'' :: unit call]"
proof -
  have "map (\<lambda>worker. WorkerDropTable (worker_id worker) ''t'')
           (cluster_workers (SQLCluster_new 0 2))
       = [WorkerDropTable 1 ''t'', WorkerDropTable 0 ''t'' :: unit call]"
    by (simp add: cluster2)
  moreover
  have "awaited_all 0
     (map (\<lambda>c. case c of
              WorkerDropTable i n \<Rightarrow>
                if i = 1 then Rejects 1 (Error ''no such table'') else Fulfills 5 ()
            | _ \<Rightarrow> Never)
        (map (\<lambda>worker. WorkerDropTable (worker_id worker) ''t'')
           (cluster_workers (SQLCluster_new 0 2)) :: unit call list))
     (fst (dropTable (\<lambda>c. case c of
              WorkerDropTable i n \<Rightarrow>
                if i = 1 then Rejects 1 (Error ''no such table'') else Fulfills 5 ()
            | _ \<Rightarrow> Never) (SQLCluster_new 0 2) ''t'' 0 (world0 :: unit world)))"
    by (rule fan_out_fails_fast [OF refl refl refl, THEN conjunct1])
  ultimately show ?thesis by (intro conjI)
qed

text \<open>
  Claim C6 as stated says the coordinator waits for every worker. With two workers, one
  failing at instant 1 and one finishing at instant 5, \<^verbatim>\<open>dropTable\<close> throws at instant 1.
\<close>

theorem dropTable_does_not_wait:
  "fst (dropTable (\<lambda>c. case c of
              WorkerDropTable i n \<Rightarrow>
                if i = 1 then Rejects 1 (Error ''no such table'') else Fulfills 5 ()
            | _ \<Rightarrow> Never) (SQLCluster_new 0 2) ''t'' 0 (world0 :: unit world))
   = Thrown 1 (Error ''no such table'')"
  by code_simp

subsection \<open>Workers without a file\<close>

lemma seriesToColumns_snoc:
  "seriesToColumns (data @ [(k, v)]) = assign k v (seriesToColumns data)"
  by (simp add: seriesToColumns_def)

lemma seriesToColumns_values: "snd ` set (seriesToColumns data) \<subseteq> snd ` set data"
proof (induction data rule: rev_induct)
  case Nil
  show ?case by (simp add: seriesToColumns_def)
next
  case (snoc x data)
  obtain k v where x: "x = (k, v)" by (cases x)
  show ?case unfolding x seriesToColumns_snoc
    using js_set_values [of k v "seriesToColumns data"] snoc.IH
    by (auto simp: assign_def)
qed

lemma seriesToColumns_keys:
  "set (map fst (seriesToColumns data)) = set (map fst data) - {''__proto__''}"
proof (induction data rule: rev_induct)
  case Nil
  show ?case by (simp add: seriesToColumns_def)
next
  case (snoc x data)
  obtain k v where x: "x = (k, v)" by (cases x)
  show ?case
  proof (cases "k = ''__proto__''")
    case True
    then show ?thesis unfolding x seriesToColumns_snoc using snoc.IH
      by (auto simp: assign_def)
  next
    case False
    have "set (map fst (js_set k v (seriesToColumns data))) =
        insert k (set (map fst data) - {''__proto__''})"
      unfolding js_set_keys snoc.IH ..
    with False show ?thesis unfolding x seriesToColumns_snoc
      by (auto simp: assign_def)
  qed
qed

lemma seriesToColumns_distinct: "distinct (map fst (seriesToColumns data))"
proof (induction data rule: rev_induct)
  case Nil
  show ?case by (simp add: seriesToColumns_def)
next
  case (snoc x data)
  obtain k v where x: "x = (k, v)" by (cases x)
  show ?case unfolding x seriesToColumns_snoc
    using snoc.IH js_set_distinct [of "seriesToColumns data" k v] by (simp add: assign_def)
qed

lemma seriesToColumns_map_of:
  "distinct (map fst data) \<Longrightarrow>
     map_of (seriesToColumns data) x = (if x = ''__proto__'' then None else map_of data x)"
proof (induction data arbitrary: x rule: rev_induct)
  case Nil
  show ?case by (simp add: seriesToColumns_def)
next
  case (snoc y data)
  obtain k v where y: "y = (k, v)" by (cases y)
  from snoc.prems have d: "distinct (map fst data)" and k: "k \<notin> set (map fst data)"
    unfolding y by simp_all
  from k have n: "map_of data k = None" by (simp add: map_of_eq_None_iff)
  have a: "map_of (data @ [(k, v)]) x = (if x = k then Some v else map_of data x)"
    using k by (rule append_map_of)
  show ?case
  proof (cases "k = ''__proto__''")
    case True
    then show ?thesis unfolding y seriesToColumns_snoc a
      by (simp add: assign_def snoc.IH [OF d])
  next
    case False
    then show ?thesis unfolding y seriesToColumns_snoc a
      by (simp add: assign_def js_set_map_of snoc.IH [OF d])
  qed
qed

text \<open>An object whose keys are neither array indices nor \<^verbatim>\<open>__proto__\<close> is copied as it is.\<close>

lemma seriesToColumns_copy:
  assumes "distinct (map fst data)"
    and "list_all (\<lambda>n. array_index n = None \<and> n \<noteq> ''__proto__'') (map fst data)"
  shows "seriesToColumns data = data"
  using assms
proof (induction data rule: rev_induct)
  case Nil
  show ?case by (simp add: seriesToColumns_def)
next
  case (snoc y data)
  obtain k v where y: "y = (k, v)" by (cases y)
  from snoc.prems have d: "distinct (map fst data)" and k: "k \<notin> set (map fst data)"
    and l: "list_all (\<lambda>n. array_index n = None \<and> n \<noteq> ''__proto__'') (map fst data)"
    and ki: "array_index k = None" and kp: "k \<noteq> ''__proto__''"
    unfolding y by simp_all
  from snoc.IH [OF d l] have c: "seriesToColumns data = data" .
  show ?case unfolding y seriesToColumns_snoc c using k ki kp
    by (simp add: assign_def js_set_append)
qed

text \<open>The value a key has in the object built from the schema is that of its last
  occurrence in \<^verbatim>\<open>names\<close>.\<close>

lemma reduce_map_of_last:
  "j < length ns \<Longrightarrow> ns ! j \<notin> set (drop (Suc j) ns) \<Longrightarrow>
   map_of (foldl (\<lambda>xs (i, name). js_set name (S i) xs) [] (enumerate 0 ns)) (ns ! j) = Some (S j)"
proof (induction ns rule: rev_induct)
  case Nil
  then show ?case by simp
next
  case (snoc n ns)
  show ?case
  proof (cases "j < length ns")
    case True
    with snoc.prems(2) have "ns ! j \<noteq> n" and "ns ! j \<notin> set (drop (Suc j) ns)"
      by (simp_all add: nth_append)
    with True snoc.IH show ?thesis unfolding reduce_snoc by (simp add: js_set_map_of nth_append)
  next
    case False
    with snoc.prems have "j = length ns" by simp
    then show ?thesis unfolding reduce_snoc by (simp add: js_set_map_of)
  qed
qed

lemma reduce_distinct:
  "distinct (map fst (foldl (\<lambda>xs (i, name). js_set name (S i) xs) [] (enumerate 0 ns)))"
proof (induction ns rule: rev_induct)
  case Nil
  show ?case by simp
next
  case (snoc n ns)
  show ?case unfolding reduce_snoc using snoc.IH by (rule js_set_distinct)
qed

lemma numRows_zero:
  "(\<And>c. c \<in> set cols \<Longrightarrow> series_data (snd c) = []) \<Longrightarrow> numRows (DataFrame cols) = 0"
  by (cases cols) auto

lemma empty_frame_numRows: "numRows (empty_frame atc schema) = 0"
  unfolding empty_frame_def DataFrame_new_def
proof (rule numRows_zero)
  let ?S = "\<lambda>i. \<lparr>series_type = atc (nth_opt (schema_types schema) i), series_data = []\<rparr>"
  let ?obj = "foldl (\<lambda>xs (i, name). js_set name (?S i) xs) [] (enumerate 0 (schema_names schema))"
  fix c
  assume "c \<in> set (seriesToColumns ?obj)"
  then have "snd c \<in> snd ` set ?obj" using seriesToColumns_values [of ?obj] by blast
  then have "snd c \<in> range ?S" using reduce_values [of ?S "schema_names schema"] by blast
  then show "series_data (snd c) = []" by auto
qed

lemma empty_frame_names_set:
  "set (names (empty_frame atc schema)) = set (schema_names schema) - {''__proto__''}"
  unfolding empty_frame_def DataFrame_new_def names.simps seriesToColumns_keys reduce_keys ..

lemma empty_frame_names_distinct: "distinct (names (empty_frame atc schema))"
  unfolding empty_frame_def DataFrame_new_def names.simps by (rule seriesToColumns_distinct)

lemma empty_frame_names_order:
  assumes "distinct (schema_names schema)"
    and "list_all (\<lambda>n. array_index n = None \<and> n \<noteq> ''__proto__'') (schema_names schema)"
  shows "names (empty_frame atc schema :: ('t, 'v) DataFrame) = schema_names schema"
proof -
  let ?S = "\<lambda>i. \<lparr>series_type = atc (nth_opt (schema_types schema) i),
                  series_data = [] :: 'v list\<rparr>"
  let ?obj = "foldl (\<lambda>xs (i, name). js_set name (?S i) xs) [] (enumerate 0 (schema_names schema))"
  from assms(2) have "list_all (\<lambda>n. array_index n = None) (schema_names schema)"
    by (simp add: list_all_iff)
  with assms(1) have k: "map fst ?obj = schema_names schema" by (rule reduce_order)
  have "seriesToColumns ?obj = ?obj"
    by (rule seriesToColumns_copy) (simp_all only: k assms)
  then have "map fst (seriesToColumns ?obj) = schema_names schema" by (simp only: k)
  then show ?thesis unfolding empty_frame_def DataFrame_new_def names.simps .
qed

lemma empty_frame_types:
  assumes "j < length (schema_names schema)"
    and "schema_names schema ! j \<noteq> ''__proto__''"
    and "schema_names schema ! j \<notin> set (drop (Suc j) (schema_names schema))"
  shows "types (empty_frame atc schema) (schema_names schema ! j) =
     Some (atc (nth_opt (schema_types schema) j))"
proof -
  let ?S = "\<lambda>i. \<lparr>series_type = atc (nth_opt (schema_types schema) i), series_data = []\<rparr>"
  let ?obj = "foldl (\<lambda>xs (i, name). js_set name (?S i) xs) [] (enumerate 0 (schema_names schema))"
  have m: "map_of ?obj (schema_names schema ! j) = Some (?S j)"
    using assms(1,3) by (rule reduce_map_of_last)
  have c: "map_of (seriesToColumns ?obj) (schema_names schema ! j) = Some (?S j)"
    using assms(2) by (simp only: seriesToColumns_map_of [OF reduce_distinct] m if_False)
  have t: "types (DataFrame cols) x = map_option series_type (map_of cols x)"
    for cols :: "('b, 'c) Series js_object" and x
    by simp
  show ?thesis unfolding empty_frame_def DataFrame_new_def t c by simp
qed

lemma empty_frame_types_proto: "types (empty_frame atc schema) ''__proto__'' = None"
proof -
  have "''__proto__'' \<notin> set (names (empty_frame atc schema))"
    unfolding empty_frame_names_set by simp
  then show ?thesis
    unfolding empty_frame_def DataFrame_new_def names.simps types.simps comp_def
    by (simp add: map_of_eq_None_iff)
qed

lemma distinct_nth_not_later:
  assumes "distinct ns" and "j < length ns"
  shows "ns ! j \<notin> set (drop (Suc j) ns)"
proof -
  from assms(2) have "ns = take j ns @ ns ! j # drop (Suc j) ns" by (rule id_take_nth_drop)
  then have "distinct (take j ns @ ns ! j # drop (Suc j) ns)" using assms(1) by simp
  then show ?thesis by simp
qed

text \<open>
  Claim C2, as the code has it. In \<^verbatim>\<open>_createFileTable\<close> (which \<^verbatim>\<open>createCSVTable\<close>,
  \<^verbatim>\<open>createParquetTable\<close> and \<^verbatim>\<open>createORCTable\<close> call with their file type and callback)
  the schema is parsed from the whole list \<^verbatim>\<open>filePath\<close>, before it is split. Every
  worker whose chunk is empty is sent the empty frame built from that schema over the
  channel and is then told to register it under the table name, with the message id
  of the transfer. The frame has no rows and one column for each name of the schema
  other than \<^verbatim>\<open>__proto__\<close>, once; the type of a column is the cuDF type of
  \<^verbatim>\<open>types[j]\<close> for the last place \<open>j\<close> of its name in the schema. When the names of the
  schema are pairwise distinct and none is an array index or \<^verbatim>\<open>__proto__\<close>, the columns
  of the frame are those of the schema, in the schema's order, each with the cuDF type
  of its entry.
\<close>

theorem empty_chunk_workers_get_empty_table:
  fixes emptyDF :: "('t, 'v) DataFrame"
  assumes "schema = parseSchema filePath fileType"
    and "emptyDF = empty_frame arrowToCUDFType schema"
    and "chunks = snd (chunkPaths (length (cluster_workers cluster)) filePath)"
    and "i < length (cluster_workers cluster)"
    and "chunks ! i = []"
    and "worker = rev (cluster_workers cluster) ! i"
  shows "(\<exists>tok pre post.
           calls (snd (snd (createFileTable parseSchema arrowToCUDFType respond cluster tableName
                              filePath fileType cb now w))) =
             pre @ [ContextSend (worker_id worker) tok (message_id tok) emptyDF,
                    WorkerCreateDataFrameTable (worker_id worker) tableName (Some (message_id tok))]
                 @ post)
    \<and> numRows emptyDF = 0
    \<and> set (names emptyDF) = set (schema_names schema) - {''__proto__''}
    \<and> distinct (names emptyDF)
    \<and> (\<forall>j<length (schema_names schema).
          schema_names schema ! j \<noteq> ''__proto__'' \<and>
          schema_names schema ! j \<notin> set (drop (Suc j) (schema_names schema)) \<longrightarrow>
          types emptyDF (schema_names schema ! j) =
            Some (arrowToCUDFType (nth_opt (schema_types schema) j)))
    \<and> (distinct (schema_names schema) \<and>
        list_all (\<lambda>n. array_index n = None \<and> n \<noteq> ''__proto__'') (schema_names schema) \<longrightarrow>
          names emptyDF = schema_names schema
          \<and> (\<forall>j<length (schema_names schema).
                types emptyDF (schema_names schema ! j) =
                  Some (arrowToCUDFType (nth_opt (schema_types schema) j))))"
proof -
  let ?l = "zip (rev (cluster_workers cluster)) chunks"
  have len: "length chunks = length (cluster_workers cluster)"
    unfolding assms(3) by (simp add: chunkPaths_def chunk_loop_length)
  have li: "i < length ?l" "?l ! i = (worker, [])"
    using assms(4,5,6) len by simp_all
  obtain fp where c: "chunkPaths (length (cluster_workers cluster)) filePath = (fp, chunks)"
    unfolding assms(3) by (cases "chunkPaths (length (cluster_workers cluster)) filePath") simp
  obtain cs w' where d: "dispatch cb tableName emptyDF ?l w = (cs, w')"
    by (cases "dispatch cb tableName emptyDF ?l w")
  have "createFileTable parseSchema arrowToCUDFType respond cluster tableName filePath fileType cb now w
      = (promise_all now (map respond cs), fp, w')"
    using c d by (simp add: createFileTable_def assms(1,2))
  then have w': "snd (snd (createFileTable parseSchema arrowToCUDFType respond cluster tableName
                              filePath fileType cb now w)) = snd (dispatch cb tableName emptyDF ?l w)"
    using d by simp
  from dispatch_empty [OF li, of w cb tableName emptyDF]
  have 1: "\<exists>tok pre post.
           calls (snd (snd (createFileTable parseSchema arrowToCUDFType respond cluster tableName
                              filePath fileType cb now w))) =
             pre @ [ContextSend (worker_id worker) tok (message_id tok) emptyDF,
                    WorkerCreateDataFrameTable (worker_id worker) tableName (Some (message_id tok))]
                 @ post"
    unfolding w' by blast
  have 2: "numRows emptyDF = 0" unfolding assms(2) by (rule empty_frame_numRows)
  have 3: "set (names emptyDF) = set (schema_names schema) - {''__proto__''}"
    unfolding assms(2) by (rule empty_frame_names_set)
  have 4: "distinct (names emptyDF)"
    unfolding assms(2) by (rule empty_frame_names_distinct)
  have 5: "\<forall>j<length (schema_names schema).
          schema_names schema ! j \<noteq> ''__proto__'' \<and>
          schema_names schema ! j \<notin> set (drop (Suc j) (schema_names schema)) \<longrightarrow>
          types emptyDF (schema_names schema ! j) =
            Some (arrowToCUDFType (nth_opt (schema_types schema) j))"
    unfolding assms(2) using empty_frame_types [of _ schema arrowToCUDFType] by blast
  have 6: "distinct (schema_names schema) \<and>
        list_all (\<lambda>n. array_index n = None \<and> n \<noteq> ''__proto__'') (schema_names schema) \<longrightarrow>
          names emptyDF = schema_names schema
          \<and> (\<forall>j<length (schema_names schema).
                types emptyDF (schema_names schema ! j) =
                  Some (arrowToCUDFType (nth_opt (schema_types schema) j)))"
  proof
    assume a: "distinct (schema_names schema) \<and>
        list_all (\<lambda>n. array_index n = None \<and> n \<noteq> ''__proto__'') (schema_names schema)"
    then have d: "distinct (schema_names schema)"
      and l: "list_all (\<lambda>n. array_index n = None \<and> n \<noteq> ''__proto__'') (schema_names schema)"
      by simp_all
    have n: "names emptyDF = schema_names schema"
      unfolding assms(2) using d l by (rule empty_frame_names_order)
    have "types emptyDF (schema_names schema ! j) =
                  Some (arrowToCUDFType (nth_opt (schema_types schema) j))"
      if j: "j < length (schema_names schema)" for j
    proof -
      from l j have "schema_names schema ! j \<noteq> ''__proto__''" by (simp add: list_all_length)
      moreover from d j have "schema_names schema ! j \<notin> set (drop (Suc j) (schema_names schema))"
        by (rule distinct_nth_not_later)
      ultimately show ?thesis using 5 j by blast
    qed
    with n show "names emptyDF = schema_names schema
          \<and> (\<forall>j<length (schema_names schema).
                types emptyDF (schema_names schema ! j) =
                  Some (arrowToCUDFType (nth_opt (schema_types schema) j)))"
      by blast
  qed
  show ?thesis using 1 2 3 4 5 6 by (intro conjI)
qed

theorem empty_chunk_workers_get_empty_table_witness:
  "snd (chunkPaths (length (cluster_workers (SQLCluster_new 0 2))) [''a.csv'']) ! 1 = []
   \<and> rev (cluster_workers (SQLCluster_new 0 2)) ! 1 = RemoteSQLWorker 1 1
   \<and> numRows (empty_frame (\<lambda>ty. ty)
         \<lparr>schema_names = [''x'', ''y''], schema_types = [''int32'', ''utf8'']\<rparr>
         :: (string option, unit) DataFrame) = 0
   \<and> names (empty_frame (\<lambda>ty. ty)
         \<lparr>schema_names = [''x'', ''y''], schema_types = [''int32'', ''utf8'']\<rparr>
         :: (string option, unit) DataFrame) = [''x'', ''y'']
   \<and> types (empty_frame (\<lambda>ty. ty)
         \<lparr>schema_names = [''x'', ''y''], schema_types = [''int32'', ''utf8'']\<rparr>
         :: (string option, unit) DataFrame) ''y'' = Some (Some ''utf8'')"
proof -
  let ?schema = "\<lparr>schema_names = [''x'', ''y''], schema_types = [''int32'', ''utf8'']\<rparr>"
  have h1: "(1::nat) < length (cluster_workers (SQLCluster_new 0 2))"
    by (simp add: cluster2)
  have h2: "snd (chunkPaths (length (cluster_workers (SQLCluster_new 0 2))) [''a.csv'']) ! 1 = []"
    by code_simp
  have h3: "rev (cluster_workers (SQLCluster_new 0 2)) ! 1 = RemoteSQLWorker 1 1"
    by (simp add: cluster2)
  have h4: "distinct (schema_names ?schema)" by simp
  have h6: "list_all (\<lambda>n. array_index n = None \<and> n \<noteq> ''__proto__'') (schema_names ?schema)"
    by (simp add: array_index_def is_digit_def)
  note T = empty_chunk_workers_get_empty_table [where schema = ?schema and i = 1
      and cluster = "SQLCluster_new 0 2" and filePath = "[''a.csv'']" and fileType = CSV
      and parseSchema = "\<lambda>input fileType. ?schema" and arrowToCUDFType = "\<lambda>ty. ty"
      and respond = "\<lambda>c. Fulfills 1 ()" and tableName = "''t''" and now = 0
      and cb = "\<lambda>worker chunkedPaths. WorkerCreateCSVTable (worker_id worker) ''t'' chunkedPaths"
      and w = "world0 :: (string option, unit) DataFrame world",
      OF refl refl refl h1 h2 refl]
  from T have n: "numRows (empty_frame (\<lambda>ty. ty) ?schema :: (string option, unit) DataFrame) = 0"
    by blast
  from T h4 h6 have o: "names (empty_frame (\<lambda>ty. ty) ?schema :: (string option, unit) DataFrame)
      = schema_names ?schema"
    by blast
  from T h4 h6 have "\<forall>j<length (schema_names ?schema).
      types (empty_frame (\<lambda>ty. ty) ?schema :: (string option, unit) DataFrame)
        (schema_names ?schema ! j) = Some (nth_opt (schema_types ?schema) j)"
    by blast
  then have "(1::nat) < length (schema_names ?schema) \<longrightarrow>
      types (empty_frame (\<lambda>ty. ty) ?schema :: (string option, unit) DataFrame)
        (schema_names ?schema ! 1) = Some (nth_opt (schema_types ?schema) 1)"
    by (rule spec)
  then have t: "types (empty_frame (\<lambda>ty. ty) ?schema :: (string option, unit) DataFrame) ''y''
      = Some (Some ''utf8'')"
    by (simp add: nth_opt_def)
  show ?thesis using h2 h3 n o t by simp
qed

text \<open>
  Claim C2 as stated fails for a schema with a column whose name is an array index.
  A CSV file with the columns \<^verbatim>\<open>name\<close>, \<^verbatim>\<open>2020\<close>, \<^verbatim>\<open>2019\<close>, in that order, and two
  workers: worker 0 reads the file, and worker 1, whose chunk is empty, is sent a frame
  whose columns are \<^verbatim>\<open>2019\<close>, \<^verbatim>\<open>2020\<close>, \<^verbatim>\<open>name\<close>, since an object lists its array-index
  keys first, in ascending order. And the frame for a schema with the columns
  \<^verbatim>\<open>__proto__\<close> and \<^verbatim>\<open>a\<close> has the column \<^verbatim>\<open>a\<close> only.
\<close>

lemma array_index_examples:
  "array_index ''2020'' = Some 2020" "array_index ''2019'' = Some 2019"
  "array_index ''name'' = None"
  by (simp_all add: array_index_def is_digit_def digits_value_def)

lemma empty_frame_years:
  "(empty_frame (\<lambda>ty. ty)
       \<lparr>schema_names = [''name'', ''2020'', ''2019''],
          schema_types = [''utf8'', ''int32'', ''int32'']\<rparr> :: (string option, unit) DataFrame) =
     DataFrame [(''2019'', \<lparr>series_type = Some ''int32'', series_data = []\<rparr>),
                (''2020'', \<lparr>series_type = Some ''int32'', series_data = []\<rparr>),
                (''name'', \<lparr>series_type = Some ''utf8'', series_data = []\<rparr>)]"
  by (simp add: empty_frame_def DataFrame_new_def seriesToColumns_def assign_def js_set_def
      array_index_examples nth_opt_def)

lemma empty_frame_proto:
  "names (empty_frame (\<lambda>ty. ty)
       \<lparr>schema_names = [''__proto__'', ''a''], schema_types = [''utf8'', ''int32'']\<rparr>
       :: (string option, unit) DataFrame) = [''a'']"
  by (simp add: empty_frame_def DataFrame_new_def seriesToColumns_def assign_def js_set_def
      array_index_def is_digit_def nth_opt_def)

theorem empty_table_columns_differ_from_schema:
  "calls (snd (snd (createCSVTable
          (\<lambda>input fileType. \<lparr>schema_names = [''name'', ''2020'', ''2019''],
                               schema_types = [''utf8'', ''int32'', ''int32'']\<rparr>)
          (\<lambda>ty. ty) (\<lambda>c. Fulfills 1 ()) (SQLCluster_new 0 2) ''t'' [''a.csv''] 0
          (world0 :: (string option, unit) DataFrame world)))) =
     [WorkerCreateCSVTable 0 ''t'' [''a.csv''],
      ContextSend 1 1 ''broadcast_table_message_1''
        (DataFrame [(''2019'', \<lparr>series_type = Some ''int32'', series_data = []\<rparr>),
                    (''2020'', \<lparr>series_type = Some ''int32'', series_data = []\<rparr>),
                    (''name'', \<lparr>series_type = Some ''utf8'', series_data = []\<rparr>)]),
      WorkerCreateDataFrameTable 1 ''t'' (Some ''broadcast_table_message_1'')]
   \<and> names (empty_frame (\<lambda>ty. ty)
         \<lparr>schema_names = [''name'', ''2020'', ''2019''],
            schema_types = [''utf8'', ''int32'', ''int32'']\<rparr> :: (string option, unit) DataFrame)
       = [''2019'', ''2020'', ''name'']
   \<and> names (empty_frame (\<lambda>ty. ty)
         \<lparr>schema_names = [''__proto__'', ''a''], schema_types = [''utf8'', ''int32'']\<rparr>
         :: (string option, unit) DataFrame) = [''a'']"
proof -
  have 1: "calls (snd (snd (createCSVTable
          (\<lambda>input fileType. \<lparr>schema_names = [''name'', ''2020'', ''2019''],
                               schema_types = [''utf8'', ''int32'', ''int32'']\<rparr>)
          (\<lambda>ty. ty) (\<lambda>c. Fulfills 1 ()) (SQLCluster_new 0 2) ''t'' [''a.csv''] 0
          (world0 :: (string option, unit) DataFrame world)))) =
     [WorkerCreateCSVTable 0 ''t'' [''a.csv''],
      ContextSend 1 1 ''broadcast_table_message_1''
        (DataFrame [(''2019'', \<lparr>series_type = Some ''int32'', series_data = []\<rparr>),
                    (''2020'', \<lparr>series_type = Some ''int32'', series_data = []\<rparr>),
                    (''name'', \<lparr>series_type = Some ''utf8'', series_data = []\<rparr>)]),
      WorkerCreateDataFrameTable 1 ''t'' (Some ''broadcast_table_message_1'')]"
    unfolding createCSVTable_def createFileTable_def Let_def empty_frame_years
    by code_simp
  have 2: "names (empty_frame (\<lambda>ty. ty)
         \<lparr>schema_names = [''name'', ''2020'', ''2019''],
            schema_types = [''utf8'', ''int32'', ''int32'']\<rparr> :: (string option, unit) DataFrame)
       = [''2019'', ''2020'', ''name'']"
    unfolding empty_frame_years by simp
  from 1 2 empty_frame_proto show ?thesis by (intro conjI)
qed


subsection \<open>Racing the pending promises\<close>

lemma settlements_mem:
  "(t, idx, r) \<in> set (settlements now i ps) \<Longrightarrow>
     i \<le> idx \<and> idx < i + length ps \<and>
     ((\<exists>t' v. ps ! (idx - i) = Fulfills t' v \<and> t = max now t' \<and> r = Inr v) \<or>
      (\<exists>t' e. ps ! (idx - i) = Rejects t' e \<and> t = max now t' \<and> r = Inl e))"
proof (induction now i ps rule: settlements.induct)
  case (1 now idx)
  then show ?case by simp
next
  case (2 now i t' v ps)
  show ?case
  proof (cases "idx = i")
    case True
    with 2 show ?thesis by auto
  next
    case False
    with 2 have "(t, idx, r) \<in> set (settlements now (Suc i) ps)" by auto
    from "2.IH" [OF this] show ?thesis by (auto simp: Suc_diff_Suc nth_Cons')
  qed
next
  case (3 now i t' e ps)
  show ?case
  proof (cases "idx = i")
    case True
    with 3 show ?thesis by auto
  next
    case False
    with 3 have "(t, idx, r) \<in> set (settlements now (Suc i) ps)" by auto
    from "3.IH" [OF this] show ?thesis by (auto simp: Suc_diff_Suc nth_Cons')
  qed
next
  case (4 now i ps)
  then have "(t, idx, r) \<in> set (settlements now (Suc i) ps)" by simp
  from "4.IH" [OF this] show ?case by (auto simp: Suc_diff_Suc nth_Cons')
qed

lemma settlements_Fulfills:
  "j < length ps \<Longrightarrow> ps ! j = Fulfills t v \<Longrightarrow> (max now t, i + j, Inr v) \<in> set (settlements now i ps)"
proof (induction now i ps arbitrary: j rule: settlements.induct)
  case (1 now idx)
  then show ?case by simp
next
  case (2 now i t' v' ps)
  then show ?case by (cases j) auto
next
  case (3 now i t' e ps)
  then show ?case by (cases j) auto
next
  case (4 now i ps)
  then show ?case by (cases j) auto
qed

lemma settlements_Rejects:
  "j < length ps \<Longrightarrow> ps ! j = Rejects t e \<Longrightarrow> (max now t, i + j, Inl e) \<in> set (settlements now i ps)"
proof (induction now i ps arbitrary: j rule: settlements.induct)
  case (1 now idx)
  then show ?case by simp
next
  case (2 now i t' v' ps)
  then show ?case by (cases j) auto
next
  case (3 now i t' e ps)
  then show ?case by (cases j) auto
next
  case (4 now i ps)
  then show ?case by (cases j) auto
qed

lemma settlements_sorted:
  "sorted_wrt (\<lambda>a b. fst (snd a) < fst (snd b)) (settlements now i ps)"
proof (induction now i ps rule: settlements.induct)
  case (1 now idx)
  show ?case by simp
next
  case (2 now i t v ps)
  have "i < fst (snd y)" if "y \<in> set (settlements now (Suc i) ps)" for y
    using settlements_mem [of "fst y" "fst (snd y)" "snd (snd y)" now "Suc i" ps] that by simp
  with 2 show ?case by simp
next
  case (3 now i t e ps)
  have "i < fst (snd y)" if "y \<in> set (settlements now (Suc i) ps)" for y
    using settlements_mem [of "fst y" "fst (snd y)" "snd (snd y)" now "Suc i" ps] that by simp
  with 3 show ?case by simp
next
  case (4 now i ps)
  then show ?case by simp
qed

lemma earliest_ties:
  fixes xs :: "(nat \<times> nat \<times> 'c) list"
  shows "earliest xs = Some m \<Longrightarrow> sorted_wrt (\<lambda>a b. fst (snd a) < fst (snd b)) xs \<Longrightarrow> y \<in> set xs \<Longrightarrow>
     fst m < fst y \<or> (fst m = fst y \<and> fst (snd m) \<le> fst (snd y))"
proof (induction xs arbitrary: m)
  case Nil
  then show ?case by simp
next
  case (Cons x xs)
  show ?case
  proof (cases "earliest xs")
    case None
    then have "xs = []" by (simp add: earliest_None)
    with Cons.prems show ?thesis by auto
  next
    case (Some z)
    have s: "sorted_wrt (\<lambda>a b. fst (snd a) < fst (snd b)) xs" using Cons.prems(2) by simp
    have zin: "z \<in> set xs" using Some by (rule earliest_mem)
    have xlt: "fst (snd x) < fst (snd u)" if "u \<in> set xs" for u using Cons.prems(2) that by auto
    show ?thesis
    proof (cases "fst x \<le> fst z")
      case True
      with Some Cons.prems(1) have m: "m = x" by simp
      show ?thesis
      proof (cases "y = x")
        case True
        with m show ?thesis by simp
      next
        case False
        with Cons.prems(3) have yin: "y \<in> set xs" by simp
        from Cons.IH [OF Some s yin] have "fst z \<le> fst y" by auto
        with True have "fst x \<le> fst y" by simp
        moreover have "fst (snd x) \<le> fst (snd y)" using xlt [OF yin] by simp
        ultimately show ?thesis unfolding m by auto
      qed
    next
      case False
      with Some Cons.prems(1) have m: "m = z" by simp
      show ?thesis
      proof (cases "y = x")
        case True
        with False m show ?thesis by simp
      next
        case False
        with Cons.prems(3) have yin: "y \<in> set xs" by simp
        from Cons.IH [OF Some s yin] show ?thesis unfolding m .
      qed
    qed
  qed
qed

lemma promise_race_Returned:
  assumes "promise_race now ps = Returned t (dfs, idx)"
  shows "idx < length ps \<and> (\<exists>t'. ps ! idx = Fulfills t' dfs \<and> t = max now t')"
proof -
  from assms have "earliest (settlements now 0 ps) = Some (t, idx, Inr dfs)"
    by (auto simp: promise_race_def split: option.splits prod.splits sum.splits)
  then have "(t, idx, Inr dfs) \<in> set (settlements now 0 ps)" by (rule earliest_mem)
  from settlements_mem [OF this] show ?thesis by auto
qed

lemma promise_race_Thrown:
  assumes "promise_race now ps = Thrown t e"
  shows "\<exists>idx t'. idx < length ps \<and> ps ! idx = Rejects t' e \<and> t = max now t'"
proof -
  from assms obtain idx where "earliest (settlements now 0 ps) = Some (t, idx, Inl e)"
    by (auto simp: promise_race_def split: option.splits prod.splits sum.splits)
  then have "(t, idx, Inl e) \<in> set (settlements now 0 ps)" by (rule earliest_mem)
  from settlements_mem [OF this] show ?thesis by auto
qed

lemma promise_race_Blocked:
  assumes "promise_race now ps = Blocked" and "p \<in> set ps"
  shows "p = Never"
proof (rule ccontr)
  assume n: "p \<noteq> Never"
  from assms(2) obtain j where j: "j < length ps" "ps ! j = p" by (auto simp: in_set_conv_nth)
  have "settlements now 0 ps \<noteq> []"
  proof (cases p)
    case (Fulfills t v)
    with j settlements_Fulfills [of j ps t v now 0] show ?thesis by auto
  next
    case (Rejects t e)
    with j settlements_Rejects [of j ps t e now 0] show ?thesis by auto
  next
    case Never
    with n show ?thesis by simp
  qed
  then have "earliest (settlements now 0 ps) \<noteq> None" by (simp add: earliest_None)
  with assms(1) show False
    by (auto simp: promise_race_def split: option.splits prod.splits sum.splits)
qed

lemma promise_race_winner:
  assumes "i < length ps" and "ps ! i = Fulfills t dfs"
    and "\<forall>j<length ps. \<forall>t'. settles (ps ! j) = Some t' \<longrightarrow>
           (if j < i then max now t < max now t' else max now t \<le> max now t')"
  shows "promise_race now ps = Returned (max now t) (dfs, i)"
proof -
  have w: "(max now t, i, Inr dfs) \<in> set (settlements now 0 ps)"
    using settlements_Fulfills [OF assms(1,2), of now 0] by simp
  then have "earliest (settlements now 0 ps) \<noteq> None" by (auto simp: earliest_None)
  then obtain tm im rm where m: "earliest (settlements now 0 ps) = Some (tm, im, rm)"
    by (cases "earliest (settlements now 0 ps)") auto
  from earliest_mem [OF m] have mm: "(tm, im, rm) \<in> set (settlements now 0 ps)" .
  from settlements_mem [OF mm] have im: "im < length ps"
    and cases: "(\<exists>t' v. ps ! im = Fulfills t' v \<and> tm = max now t' \<and> rm = Inr v) \<or>
      (\<exists>t' e. ps ! im = Rejects t' e \<and> tm = max now t' \<and> rm = Inl e)"
    by auto
  from cases obtain t' where t': "settles (ps ! im) = Some t'" "tm = max now t'" by auto
  from assms(3) im t' have c: "if im < i then max now t < tm else max now t \<le> tm" by auto
  from earliest_ties [OF m settlements_sorted w]
  have "tm < max now t \<or> (tm = max now t \<and> im \<le> i)" by simp
  with c have "im = i" "tm = max now t" by (auto split: if_splits)
  with cases assms(2) have "rm = Inr dfs" by auto
  with m \<open>im = i\<close> \<open>tm = max now t\<close> show ?thesis by (simp add: promise_race_def)
qed

lemma set_remove_nth:
  "idx < length ps \<Longrightarrow> set ps = insert (ps ! idx) (set (take idx ps @ drop (Suc idx) ps))"
proof -
  assume "idx < length ps"
  then have "ps = take idx ps @ ps ! idx # drop (Suc idx) ps" by (rule id_take_nth_drop)
  then have "set ps = set (take idx ps @ ps ! idx # drop (Suc idx) ps)" by simp
  then show ?thesis by simp
qed

lemma drain_step:
  assumes "i < length ps" and "ps ! i = Fulfills t dfs"
    and "\<forall>j<length ps. \<forall>t'. settles (ps ! j) = Some t' \<longrightarrow>
           (if j < i then max now t < max now t' else max now t \<le> max now t')"
  shows "drain consumer now k ps =
     (dfs @ fst (drain consumer (fst (yield_all consumer (max now t) k dfs))
                   (snd (yield_all consumer (max now t) k dfs)) (take i ps @ drop (Suc i) ps)),
      snd (drain consumer (fst (yield_all consumer (max now t) k dfs))
                   (snd (yield_all consumer (max now t) k dfs)) (take i ps @ drop (Suc i) ps)))"
proof -
  have r: "promise_race now ps = Returned (max now t) (dfs, i)"
    using assms by (rule promise_race_winner)
  have ne: "ps \<noteq> []" using assms(1) by auto
  show ?thesis
    using ne r by (simp add: drain.simps [of consumer now k ps] splice_def split: prod.splits)
qed

lemma wins_race_iff:
  "wins_race now ps i \<longleftrightarrow>
     i < length ps \<and>
     (\<exists>t. settles (ps ! i) = Some t \<and>
        (\<forall>j<length ps. \<forall>t'. settles (ps ! j) = Some t' \<longrightarrow>
           (if j < i then max now t < max now t' else max now t \<le> max now t')))"
proof (cases "settles (ps ! i)")
  case None
  then show ?thesis by (simp add: wins_race_def)
next
  case (Some t)
  have l: "list_all P [0..<length ps] \<longleftrightarrow> (\<forall>j<length ps. P j)" for P
    by (auto simp: list_all_iff)
  have a: "(case settles (ps ! j) of None \<Rightarrow> True | Some t' \<Rightarrow> Q t') \<longleftrightarrow>
      (\<forall>t'. settles (ps ! j) = Some t' \<longrightarrow> Q t')" for Q j
    by (cases "settles (ps ! j)") simp_all
  have e: "(\<exists>t0. Some t = Some t0 \<and> R t0) \<longleftrightarrow> R t" for R
    by blast
  show ?thesis unfolding wins_race_def Some option.case l a e ..
qed

lemma wins_raceD:
  assumes "wins_race now ps i" and "settles (ps ! i) = Some t"
  shows "\<forall>j<length ps. \<forall>t'. settles (ps ! j) = Some t' \<longrightarrow>
           (if j < i then max now t < max now t' else max now t \<le> max now t')"
proof -
  from assms(1) obtain t0 where a: "settles (ps ! i) = Some t0"
    and b: "\<forall>j<length ps. \<forall>t'. settles (ps ! j) = Some t' \<longrightarrow>
           (if j < i then max now t0 < max now t' else max now t0 \<le> max now t')"
    unfolding wins_race_iff by blast
  from a assms(2) have "t0 = t" by simp
  with b show ?thesis by blast
qed

lemma wins_race_length: "wins_race now ps i \<Longrightarrow> i < length ps"
  unfolding wins_race_iff by blast

lemma wins_raceI:
  assumes "i < length ps" and "settles (ps ! i) = Some t"
    and "\<forall>j<length ps. \<forall>t'. settles (ps ! j) = Some t' \<longrightarrow>
           (if j < i then max now t < max now t' else max now t \<le> max now t')"
  shows "wins_race now ps i"
  unfolding wins_race_iff using assms by blast

lemma promise_race_rejected:
  assumes "i < length ps" and "ps ! i = Rejects t e"
    and "\<forall>j<length ps. \<forall>t'. settles (ps ! j) = Some t' \<longrightarrow>
           (if j < i then max now t < max now t' else max now t \<le> max now t')"
  shows "promise_race now ps = Thrown (max now t) e"
proof -
  have w: "(max now t, i, Inl e) \<in> set (settlements now 0 ps)"
    using settlements_Rejects [OF assms(1,2), of now 0] by simp
  then have "earliest (settlements now 0 ps) \<noteq> None" by (auto simp: earliest_None)
  then obtain tm im rm where m: "earliest (settlements now 0 ps) = Some (tm, im, rm)"
    by (cases "earliest (settlements now 0 ps)") auto
  from earliest_mem [OF m] have mm: "(tm, im, rm) \<in> set (settlements now 0 ps)" .
  from settlements_mem [OF mm] have im: "im < length ps"
    and cases: "(\<exists>t' v. ps ! im = Fulfills t' v \<and> tm = max now t' \<and> rm = Inr v) \<or>
      (\<exists>t' e. ps ! im = Rejects t' e \<and> tm = max now t' \<and> rm = Inl e)"
    by auto
  from cases obtain t' where t': "settles (ps ! im) = Some t'" "tm = max now t'" by auto
  from assms(3) im t' have c: "if im < i then max now t < tm else max now t \<le> tm" by auto
  from earliest_ties [OF m settlements_sorted w]
  have "tm < max now t \<or> (tm = max now t \<and> im \<le> i)" by simp
  with c have "im = i" "tm = max now t" by (auto split: if_splits)
  with cases assms(2) have "rm = Inl e" by auto
  with m \<open>im = i\<close> \<open>tm = max now t\<close> show ?thesis by (simp add: promise_race_def)
qed

lemma earliest_wins_race:
  assumes "earliest (settlements now 0 ps) = Some (tm, im, rm)"
  shows "wins_race now ps im"
proof -
  from earliest_mem [OF assms] have mm: "(tm, im, rm) \<in> set (settlements now 0 ps)" .
  from settlements_mem [OF mm] have im: "im < length ps"
    and cases: "(\<exists>t' v. ps ! im = Fulfills t' v \<and> tm = max now t' \<and> rm = Inr v) \<or>
      (\<exists>t' e. ps ! im = Rejects t' e \<and> tm = max now t' \<and> rm = Inl e)"
    by auto
  from cases obtain t where t: "settles (ps ! im) = Some t" "tm = max now t" by auto
  have "if j < im then tm < max now t' else tm \<le> max now t'"
    if j: "j < length ps" and s: "settles (ps ! j) = Some t'" for j t'
  proof -
    have "\<exists>r. (max now t', j, r) \<in> set (settlements now 0 ps)"
    proof (cases "ps ! j")
      case (Fulfills t'' v)
      with s have "ps ! j = Fulfills t' v" by simp
      from settlements_Fulfills [OF j this, of now 0] show ?thesis by auto
    next
      case (Rejects t'' e)
      with s have "ps ! j = Rejects t' e" by simp
      from settlements_Rejects [OF j this, of now 0] show ?thesis by auto
    next
      case Never
      with s show ?thesis by simp
    qed
    then obtain r where "(max now t', j, r) \<in> set (settlements now 0 ps)" ..
    from earliest_ties [OF assms settlements_sorted this]
    have "tm < max now t' \<or> (tm = max now t' \<and> im \<le> j)" by simp
    then show ?thesis by auto
  qed
  then have "\<forall>j<length ps. \<forall>t'. settles (ps ! j) = Some t' \<longrightarrow>
           (if j < im then max now t < max now t' else max now t \<le> max now t')"
    unfolding t(2) by blast
  with im t(1) show ?thesis by (rule wins_raceI)
qed

lemma promise_race_Returned_wins:
  assumes "promise_race now ps = Returned t (dfs, idx)"
  shows "wins_race now ps idx"
proof -
  from assms have "earliest (settlements now 0 ps) = Some (t, idx, Inr dfs)"
    by (auto simp: promise_race_def split: option.splits prod.splits sum.splits)
  then show ?thesis by (rule earliest_wins_race)
qed

lemma promise_race_Thrown_wins:
  assumes "promise_race now ps = Thrown t e"
  shows "\<exists>idx t'. idx < length ps \<and> wins_race now ps idx \<and> ps ! idx = Rejects t' e"
proof -
  from assms obtain idx where m: "earliest (settlements now 0 ps) = Some (t, idx, Inl e)"
    by (auto simp: promise_race_def split: option.splits prod.splits sum.splits)
  from earliest_mem [OF m] have "(t, idx, Inl e) \<in> set (settlements now 0 ps)" .
  from settlements_mem [OF this] have "idx < length ps" "\<exists>t'. ps ! idx = Rejects t' e" by auto
  with earliest_wins_race [OF m] show ?thesis by blast
qed

lemma fails_after_drain:
  "fails_after consumer now k ps run e \<Longrightarrow>
     drain consumer now k ps = (concat (map snd run), Throws e)"
proof (induction run arbitrary: now k ps)
  case Nil
  then obtain i where i: "i < length ps" and wr: "wins_race now ps i"
    and r: "case ps ! i of Rejects t e' \<Rightarrow> e' = e | _ \<Rightarrow> False"
    by (auto simp: list_ex_iff)
  from r obtain t where t: "ps ! i = Rejects t e" by (cases "ps ! i") auto
  from t have "settles (ps ! i) = Some t" by simp
  from wins_raceD [OF wr this] i t
  have "promise_race now ps = Thrown (max now t) e" by (intro promise_race_rejected)
  moreover have "ps \<noteq> []" using i by (cases ps) simp_all
  ultimately show ?case by (simp add: drain.simps [of consumer now k ps])
next
  case (Cons x run)
  obtain i dfs where x: "x = (i, dfs)" by (cases x)
  from Cons.prems have wr: "wins_race now ps i"
    and c: "case ps ! i of
         Fulfills t dfs' \<Rightarrow>
           dfs' = dfs \<and>
           (case yield_all consumer (max now t) k dfs of
              (now', k') \<Rightarrow> fails_after consumer now' k' (take i ps @ drop (Suc i) ps) run e)
       | _ \<Rightarrow> False"
    unfolding x by simp_all
  from c obtain t where t: "ps ! i = Fulfills t dfs"
    and f: "case yield_all consumer (max now t) k dfs of
              (now', k') \<Rightarrow> fails_after consumer now' k' (take i ps @ drop (Suc i) ps) run e"
    by (cases "ps ! i") auto
  obtain now' k' where y: "yield_all consumer (max now t) k dfs = (now', k')"
    by (cases "yield_all consumer (max now t) k dfs")
  from f y have "fails_after consumer now' k' (take i ps @ drop (Suc i) ps) run e" by simp
  from Cons.IH [OF this]
  have d: "drain consumer now' k' (take i ps @ drop (Suc i) ps) = (concat (map snd run), Throws e)" .
  from wr have i: "i < length ps" by (rule wins_race_length)
  from t have "settles (ps ! i) = Some t" by simp
  from wins_raceD [OF wr this]
  have "\<forall>j<length ps. \<forall>t'. settles (ps ! j) = Some t' \<longrightarrow>
           (if j < i then max now t < max now t' else max now t \<le> max now t')" .
  from drain_step [OF i t this, of consumer k] show ?case
    unfolding x by (simp add: y d)
qed

lemma drain_fails:
  "Rejects t e \<in> set ps \<Longrightarrow>
     \<exists>run e' t'. fails_after consumer now k ps run e' \<and> Rejects t' e' \<in> set ps"
proof (induction consumer now k ps rule: drain.induct)
  case (1 consumer now k promises)
  show ?case
  proof (cases "promise_race now promises")
    case Blocked
    from promise_race_Blocked [OF this "1.prems"] show ?thesis by simp
  next
    case (Thrown t1 e1)
    from promise_race_Thrown_wins [OF this] obtain idx t' where
      idx: "idx < length promises" "wins_race now promises idx" "promises ! idx = Rejects t' e1"
      by blast
    then have "fails_after consumer now k promises [] e1"
      by (auto simp: list_ex_iff intro!: bexI [of _ idx])
    moreover have "Rejects t' e1 \<in> set promises" using idx(1,3) by (metis nth_mem)
    ultimately show ?thesis by blast
  next
    case (Returned t1 r)
    obtain dfs idx where r: "r = (dfs, idx)" by (cases r)
    from promise_race_Returned [OF Returned [unfolded r]] obtain t' where
      idx: "idx < length promises" "promises ! idx = Fulfills t' dfs" and t1: "t1 = max now t'"
      by auto
    have wr: "wins_race now promises idx"
      using Returned [unfolded r] by (rule promise_race_Returned_wins)
    have ne: "length promises > 0" using idx(1) by (cases promises) simp_all
    let ?ps = "snd (splice idx 1 promises)"
    have ps: "?ps = take idx promises @ drop (Suc idx) promises" by (simp add: splice_def)
    obtain now' k' where y: "yield_all consumer t1 k dfs = (now', k')"
      by (cases "yield_all consumer t1 k dfs")
    have sub: "set promises = insert (promises ! idx) (set ?ps)"
      unfolding ps using idx(1) by (rule set_remove_nth)
    with "1.prems" idx(2) have "Rejects t e \<in> set ?ps" by auto
    from "1.IH" [OF ne Returned [unfolded r] refl y [symmetric] this] obtain run e' t'' where
      f: "fails_after consumer now' k' ?ps run e'" and rj: "Rejects t'' e' \<in> set ?ps"
      by blast
    have "fails_after consumer now k promises ((idx, dfs) # run) e'"
      using wr idx(2) y f unfolding t1 ps by simp
    moreover have "Rejects t'' e' \<in> set promises" using rj sub by auto
    ultimately show ?thesis by blast
  qed
qed

subsection \<open>A worker that fails during a query\<close>

text \<open>
  Claim C7. When the promise of some worker is rejected, the generator throws the
  rejection of a worker: that of the first rejected promise to win a race (with one
  failing worker, its error). The batches of the workers whose fulfilled promises won
  the races before that one have been yielded, race by race in that order, and that is
  all the caller has received when the error arrives: nothing is taken back and nothing
  is held until the query ends.
\<close>

theorem sql_rejection_surfaces:
  assumes "explain query False = Inr algebra"
    and "\<not> js_includes algebra ''LogicalValues(tuples=[[]])''"
    and "ps = map (\<lambda>worker. respond (WorkerSql (worker_id worker) query (ctxToken w)))
                (cluster_workers cluster)"
  shows "(\<forall>run e. fails_after consumer now 0 ps run e \<longrightarrow>
            fst (sql explain respond consumer cluster query now w) =
              (concat (map snd run), Throws e))
    \<and> (\<forall>worker\<in>set (cluster_workers cluster). \<forall>t e.
          respond (WorkerSql (worker_id worker) query (ctxToken w)) = Rejects t e \<longrightarrow>
          (\<exists>run e' worker' t'.
              fails_after consumer now 0 ps run e'
            \<and> worker' \<in> set (cluster_workers cluster)
            \<and> respond (WorkerSql (worker_id worker') query (ctxToken w)) = Rejects t' e'
            \<and> fst (sql explain respond consumer cluster query now w) =
                (concat (map snd run), Throws e')))"
proof -
  let ?f = "\<lambda>worker. respond (WorkerSql (worker_id worker) query (ctxToken w))"
  have s: "fst (sql explain respond consumer cluster query now w) = drain consumer now 0 ps"
    using assms by (simp add: sql_def Let_def comp_def)
  have 1: "\<forall>run e. fails_after consumer now 0 ps run e \<longrightarrow>
            fst (sql explain respond consumer cluster query now w) =
              (concat (map snd run), Throws e)"
    unfolding s using fails_after_drain [of consumer now 0 ps] by blast
  have 2: "\<exists>run e' worker' t'.
              fails_after consumer now 0 ps run e'
            \<and> worker' \<in> set (cluster_workers cluster)
            \<and> respond (WorkerSql (worker_id worker') query (ctxToken w)) = Rejects t' e'
            \<and> fst (sql explain respond consumer cluster query now w) =
                (concat (map snd run), Throws e')"
    if "worker \<in> set (cluster_workers cluster)" and "?f worker = Rejects t e" for worker t e
  proof -
    from that have "Rejects t e \<in> set ps" unfolding assms(3) by force
    from drain_fails [OF this, of consumer now 0] obtain run e' t' where
      f: "fails_after consumer now 0 ps run e'" and rj: "Rejects t' e' \<in> set ps"
      by blast
    from rj obtain worker' where w': "worker' \<in> set (cluster_workers cluster)"
      "?f worker' = Rejects t' e'"
      unfolding assms(3) by auto
    from f have "fst (sql explain respond consumer cluster query now w) =
                (concat (map snd run), Throws e')"
      unfolding s by (rule fails_after_drain)
    with f w' show ?thesis by blast
  qed
  from 1 2 show ?thesis by blast
qed

theorem sql_rejection_surfaces_witness:
  "fails_after (\<lambda>k. 5) 0 0
       [Rejects 100 (Error ''worker 2 failed''), Fulfills 1 [''b''], Fulfills 2 [''a'']]
       [(1, [''b'']), (1, [''a''])] (Error ''worker 2 failed'')
   \<and> fst (sql (\<lambda>q d. Inr ''LogicalTableScan(table=[[main, t]])'')
        (\<lambda>c. case c of
           WorkerSql i q token \<Rightarrow>
             if i = 2 then Rejects 100 (Error ''worker 2 failed'')
             else if i = 1 then Fulfills 1 [''b''] else Fulfills 2 [''a'']
         | _ \<Rightarrow> Never)
        (\<lambda>k. 5) (SQLCluster_new 0 3) ''SELECT * FROM t'' 0 (world0 :: string world))
     = ([''b'', ''a''], Throws (Error ''worker 2 failed''))"
proof -
  let ?respond = "\<lambda>c. case c of
           WorkerSql i q token \<Rightarrow>
             if i = 2 then Rejects 100 (Error ''worker 2 failed'')
             else if i = 1 then Fulfills 1 [''b''] else Fulfills 2 [''a'']
         | _ \<Rightarrow> Never"
  let ?ps = "[Rejects 100 (Error ''worker 2 failed''), Fulfills 1 [''b''], Fulfills 2 [''a'']]"
  have h2: "\<not> js_includes ''LogicalTableScan(table=[[main, t]])'' ''LogicalValues(tuples=[[]])''"
    by simp
  have h3: "?ps = map (\<lambda>worker. ?respond (WorkerSql (worker_id worker) ''SELECT * FROM t''
                          (ctxToken (world0 :: string world))))
                (cluster_workers (SQLCluster_new 0 3))"
    by code_simp
  have f: "fails_after (\<lambda>k. 5) 0 0 ?ps [(1, [''b'']), (1, [''a''])] (Error ''worker 2 failed'')"
    by code_simp
  note T = sql_rejection_surfaces [where explain = "\<lambda>q d. Inr ''LogicalTableScan(table=[[main, t]])''"
      and algebra = "''LogicalTableScan(table=[[main, t]])''"
      and query = "''SELECT * FROM t''" and cluster = "SQLCluster_new 0 3"
      and respond = ?respond and ps = ?ps
      and w = "world0 :: string world" and consumer = "\<lambda>k. 5" and now = 0, OF refl h2 h3]
  from T [THEN conjunct1] have "fails_after (\<lambda>k. 5) 0 0 ?ps [(1, [''b'']), (1, [''a''])]
        (Error ''worker 2 failed'') \<longrightarrow>
      fst (sql (\<lambda>q d. Inr ''LogicalTableScan(table=[[main, t]])'') ?respond
        (\<lambda>k. 5) (SQLCluster_new 0 3) ''SELECT * FROM t'' 0 (world0 :: string world))
      = (concat (map snd [(1, [''b'']), (1 :: nat, [''a''])]), Throws (Error ''worker 2 failed''))"
    by blast
  with f have "fst (sql (\<lambda>q d. Inr ''LogicalTableScan(table=[[main, t]])'') ?respond
        (\<lambda>k. 5) (SQLCluster_new 0 3) ''SELECT * FROM t'' 0 (world0 :: string world))
      = ([''b'', ''a''], Throws (Error ''worker 2 failed''))"
    by simp
  with f show ?thesis by (intro conjI)
qed

subsection \<open>The order of the batches of a query\<close>

lemma drain_two:
  assumes "now < tB" and "tB < tA"
  shows "drain consumer now k [Fulfills tA a, Fulfills tB b] = (b @ a, Done)"
proof -
  have 1: "drain consumer now k [Fulfills tA a, Fulfills tB b] =
      (b @ fst (drain consumer (fst (yield_all consumer (max now tB) k b))
                   (snd (yield_all consumer (max now tB) k b)) [Fulfills tA a]),
       snd (drain consumer (fst (yield_all consumer (max now tB) k b))
                   (snd (yield_all consumer (max now tB) k b)) [Fulfills tA a]))"
    using drain_step [of 1 "[Fulfills tA a, Fulfills tB b]" tB b now consumer k] assms
    by (simp add: less_Suc_eq max_def)
  have 2: "drain consumer now' k' [Fulfills tA a] = (a, Done)" for now' k'
    using drain_step [of 0 "[Fulfills tA a]" tA a now' consumer k']
    by (simp add: drain.simps [of _ _ _ "[]"])
  show ?thesis unfolding 1 2 by simp
qed

text \<open>
  Claim C4, as the code has it. Each turn of the loop races the promises still pending.
  The race is won by the promise that settles first or, when several are found already
  settled (they settled while the caller held a batch), by the one that stands first
  in the array. The batches of the winner are yielded at once, the winner is removed,
  and the next race is among the rest; the generator returns when none is left. With
  two workers, neither settled when the query starts, the batches of the one that
  settles first come first, whatever their order in the array.
\<close>

theorem drain_first_ready_wins:
  fixes ps :: "'df list promise list"
  shows "drain consumer now k ([] :: 'df list promise list) = ([], Done)
   \<and> (i < length ps \<and> ps ! i = Fulfills t dfs
        \<and> (\<forall>j<length ps. \<forall>t'. settles (ps ! j) = Some t' \<longrightarrow>
              (if j < i then max now t < max now t' else max now t \<le> max now t'))
      \<longrightarrow> drain consumer now k ps =
           (dfs @ fst (drain consumer (fst (yield_all consumer (max now t) k dfs))
                         (snd (yield_all consumer (max now t) k dfs))
                         (take i ps @ drop (Suc i) ps)),
            snd (drain consumer (fst (yield_all consumer (max now t) k dfs))
                         (snd (yield_all consumer (max now t) k dfs))
                         (take i ps @ drop (Suc i) ps))))
   \<and> (now < tB \<and> tB < tA \<longrightarrow>
        drain consumer now k [Fulfills tA a, Fulfills tB b] = (b @ a, Done))"
  using drain_step [of i ps t dfs now consumer k] drain_two [of now tB tA consumer k a b]
  by (simp add: drain.simps [of _ _ _ "[]"])

theorem drain_first_ready_wins_witness:
  "drain (\<lambda>k. 5) 0 0 [Fulfills 2000 [''A''], Fulfills 10 [''B'']] = ([''B'', ''A''], Done)
   \<and> drain (\<lambda>k. 5) 0 0 ([] :: string list promise list) = ([], Done)"
  using drain_first_ready_wins [where consumer = "\<lambda>k. 5" and now = 0 and k = 0 and i = 0
      and ps = "[] :: string list promise list" and t = 0 and dfs = "[]"
      and tB = 10 and tA = 2000 and a = "[''A'']" and b = "[''B'']"]
  by simp

text \<open>
  Claim C4 as stated fails when two promises settle while the caller holds a batch.
  Three workers; the promises stand in the array in the order 2, 1, 0. Worker 2 answers
  at instant 1 and its batch is yielded; the caller keeps it for 5 instants. Worker 0
  answers at instant 2 and worker 1 at instant 3. The next race finds both settled and
  worker 1, first in the array, wins: its batch \<open>b\<close> is yielded before the batch \<open>a\<close> of
  worker 0, which answered earlier.
\<close>

theorem sql_yields_in_array_order_when_both_settled:
  "fst (fst (sql (\<lambda>q d. Inr ''LogicalTableScan(table=[[main, t]])'')
        (\<lambda>c. case c of
           WorkerSql i q token \<Rightarrow>
             if i = 2 then Fulfills 1 [''c'']
             else if i = 1 then Fulfills 3 [''b''] else Fulfills 2 [''a'']
         | _ \<Rightarrow> Never)
        (\<lambda>k. 5) (SQLCluster_new 0 3) ''SELECT * FROM t'' 0 (world0 :: string world)))
   = [''c'', ''b'', ''a'']"
  by code_simp

subsection \<open>How the counter moves\<close>

text \<open>
  The counter never decreases: a broadcast advances it by the number of workers, a
  query that reaches the workers by one, and a file table by the number of workers
  whose chunk is empty.
\<close>

lemma dispatch_ctxToken:
  "ctxToken (snd (dispatch cb tn e l w)) =
     ctxToken w + length (filter (\<lambda>(worker, chunk). chunk = []) l)"
proof (induction l arbitrary: w)
  case Nil
  show ?case by simp
next
  case (Cons x l)
  obtain worker chunk where x: "x = (worker, chunk)" by (cases x)
  show ?case unfolding x
    by (cases "chunk = []")
       (simp_all add: dispatch_Cons_nonempty dispatch_Cons_empty Cons.IH emit_def
          del: dispatch.simps(2))
qed

lemma ctxToken_createDataFrameTable:
  "ctxToken (snd (createDataFrameTable broadcast respond cluster tn input now w)) =
     ctxToken w + length (cluster_workers cluster)"
  by (simp add: createDataFrameTable_def Let_def emit_def)

lemma ctxToken_sql:
  "explain query False = Inr algebra \<Longrightarrow> \<not> js_includes algebra ''LogicalValues(tuples=[[]])'' \<Longrightarrow>
     ctxToken (snd (sql explain respond consumer cluster query now w)) = ctxToken w + 1"
  by (simp add: sql_def Let_def emit_def)

lemma ctxToken_createFileTable:
  "ctxToken (snd (snd (createFileTable ps atc respond cluster tn fps ft cb now w))) =
     ctxToken w + length (filter (\<lambda>chunk. chunk = [])
                      (snd (chunkPaths (length (cluster_workers cluster)) fps)))"
proof -
  obtain fp ch where c: "chunkPaths (length (cluster_workers cluster)) fps = (fp, ch)"
    by (cases "chunkPaths (length (cluster_workers cluster)) fps")
  have len: "length ch = length (rev (cluster_workers cluster))"
    using c chunk_loop_length [of "length (cluster_workers cluster)" fps]
    by (simp add: chunkPaths_def)
  have "length (filter (\<lambda>(worker, chunk). chunk = []) (zip ws ch)) =
      length (filter (\<lambda>chunk. chunk = []) ch)" if "length ch = length ws" for ws :: "Worker list"
    using that by (induction ws ch rule: list_induct2') auto
  from this [OF len] have f: "length (filter (\<lambda>(worker, chunk). chunk = [])
        (zip (rev (cluster_workers cluster)) ch)) = length (filter (\<lambda>chunk. chunk = []) ch)" .
  have "ctxToken (snd (dispatch cb tn (empty_frame atc (ps fps ft))
          (zip (rev (cluster_workers cluster)) ch) w)) =
        ctxToken w + length (filter (\<lambda>chunk. chunk = []) ch)"
    by (simp only: dispatch_ctxToken f)
  then show ?thesis
    by (cases "dispatch cb tn (empty_frame atc (ps fps ft))
          (zip (rev (cluster_workers cluster)) ch) w")
       (simp add: createFileTable_def c)
qed

end
